theory Spec2Isabelle
  imports Complex_Main "HOL-Library.AList" "HOL-Library.Multiset"
begin

section \<open>The collision broadphase grid of \<open>Grid.js\<close>\<close>

text \<open>
  A shallow embedding of \<open>src/physics/matter-js/lib/collision/Grid.js\<close>.

  JavaScript numbers: the bounds of a body and the cell size are modelled as real numbers
  (no NaN, no infinities; a division by a cell size of zero is excluded by hypothesis where
  it matters), cell coordinates and shared-cell counts as integers. The arithmetic of
  \<open>Grid._getBucketId\<close> is the one place where the rounding of IEEE doubles is visible on
  integers, and it is written out there.

  Objects: bodies are mutable objects shared by reference between the caller, the buckets
  and the pair records. A reference is a natural number and the heap maps references to the
  fields the grid reads (\<open>id\<close>, \<open>isStatic\<close>, \<open>isSleeping\<close>, \<open>bounds\<close>) and the one it writes
  (\<open>region\<close>). Every bucket array is referenced from one place only (the bucket map or the
  free pool), so buckets are values. An array is modelled by the list of its elements.
\<close>

subsection \<open>Data\<close>

text \<open>\<open>bounds.min.x\<close>, \<open>bounds.min.y\<close>, \<open>bounds.max.x\<close>, \<open>bounds.max.y\<close>.\<close>

record aabb =
  min_x :: real
  min_y :: real
  max_x :: real
  max_y :: real

record region =
  startCol :: int
  endCol :: int
  startRow :: int
  endRow :: int

record body =
  body_id :: nat
  isStatic :: bool
  isSleeping :: bool
  bounds :: aabb
  body_region :: "region option"

type_synonym ref = nat

type_synonym heap = "ref \<Rightarrow> body"

type_synonym bucket = "ref list"

text \<open>A pair record is the array \<open>[bodyA, bodyB, count]\<close>.\<close>

type_synonym pair = "ref \<times> ref \<times> int"

type_synonym pairId = "nat \<times> nat"

text \<open>
  \<open>buckets\<close> and \<open>pairs\<close> are JavaScript objects used as hash maps: association lists in
  the order the keys were inserted, with at most one entry per key.
  \<open>_union\<close> and \<open>_current\<close> are the two scratch regions of the grid.
\<close>

record grid =
  buckets :: "(int \<times> bucket) list"
  freeBuckets :: "bucket list"
  pairs :: "(pairId \<times> pair) list"
  pairsList :: "pair list"
  bucketWidth :: real
  bucketHeight :: real
  scratch_union :: region
  scratch_current :: region

datatype error = RangeError | TypeError

subsection \<open>Helpers of other modules\<close>

text \<open>
  Modelled from the spec: \<open>Pair.id\<close> (module \<open>Pair\<close>, not among the sources). The spec
  asks for a key built from the two identifiers, the smaller one first, so that
  \<open>key(a,b) = key(b,a)\<close>.
\<close>

definition pair_id :: "body \<Rightarrow> body \<Rightarrow> pairId" where
  "pair_id bodyA bodyB =
     (if body_id bodyA < body_id bodyB then (body_id bodyA, body_id bodyB)
      else (body_id bodyB, body_id bodyA))"

text \<open>
  Modelled from the spec: \<open>Common.indexOf\<close> (module \<open>Common\<close>, not among the sources):
  the position of the first element that is the same object, \<open>-1\<close> when there is none.
\<close>

fun indexOf :: "'a list \<Rightarrow> 'a \<Rightarrow> int" where
  "indexOf [] needle = -1"
| "indexOf (y # ys) needle =
     (if y = needle then 0
      else (let i = indexOf ys needle in if i < 0 then -1 else i + 1))"

text \<open>
  Modelled from the spec: \<open>Common.keys\<close> (module \<open>Common\<close>, not among the sources): the
  keys of an object, in the order of its entries.
\<close>

definition keys :: "('k \<times> 'v) list \<Rightarrow> 'k list" where
  "keys obj = map fst obj"

subsection \<open>Regions\<close>

definition createRegion :: "int \<Rightarrow> int \<Rightarrow> int \<Rightarrow> int \<Rightarrow> region" where
  "createRegion sc ec sr er = \<lparr>startCol = sc, endCol = ec, startRow = sr, endRow = er\<rparr>"

definition regionUnion :: "region \<Rightarrow> region \<Rightarrow> region \<Rightarrow> region" where
  "regionUnion un regionA regionB =
     un\<lparr>startCol := min (startCol regionA) (startCol regionB),
        endCol := max (endCol regionA) (endCol regionB),
        startRow := min (startRow regionA) (startRow regionB),
        endRow := max (endRow regionA) (endRow regionB)\<rparr>"

definition setRegion :: "region \<Rightarrow> region \<Rightarrow> region" where
  "setRegion rg source =
     rg\<lparr>startCol := startCol source, endCol := endCol source,
        startRow := startRow source, endRow := endRow source\<rparr>"

definition createRegionFrom :: "region \<Rightarrow> region" where
  "createRegionFrom r = createRegion (startCol r) (endCol r) (startRow r) (endRow r)"

text \<open>
  \<open>Grid._getRegion(grid, region, body)\<close> writes the four cell coordinates into the region
  it is given and returns it.
\<close>

definition getRegion :: "grid \<Rightarrow> region \<Rightarrow> body \<Rightarrow> region" where
  "getRegion g rg b =
     rg\<lparr>startCol := \<lfloor>min_x (bounds b) / bucketWidth g\<rfloor>,
        endCol := \<lfloor>max_x (bounds b) / bucketWidth g\<rfloor>,
        startRow := \<lfloor>min_y (bounds b) / bucketHeight g\<rfloor>,
        endRow := \<lfloor>max_y (bounds b) / bucketHeight g\<rfloor>\<rparr>"

text \<open>
  \<open>Grid._isSameRegion\<close>: a missing region (\<open>!regionA || !regionB\<close>) is never the same.
\<close>

definition isSameRegion :: "region option \<Rightarrow> region option \<Rightarrow> bool" where
  "isSameRegion regionA regionB =
     (case (regionA, regionB) of
        (Some a, Some b) \<Rightarrow>
          startCol a = startCol b \<and> endCol a = endCol b
          \<and> startRow a = startRow b \<and> endRow a = endRow b
      | _ \<Rightarrow> False)"

subsection \<open>Cell identifiers\<close>

text \<open>
  \<open>column * 1000000000 + row\<close> is computed on doubles. On integer operands the exact
  product and the exact sum are integers, and a double holds every integer below \<open>2^53\<close> in
  magnitude; a larger one is rounded to 53 significant bits, ties to the even mantissa.
  \<open>dropBits a\<close> is the number of low bits that do not fit.
\<close>

function dropBits :: "int \<Rightarrow> nat" where
  "dropBits a = (if a < 2 ^ 53 then 0 else Suc (dropBits (a div 2)))"
  by pat_completeness auto
termination
  by (relation "measure nat") auto

definition roundDouble :: "int \<Rightarrow> int" where
  "roundDouble n =
     (let a = \<bar>n\<bar> in
      if a < 2 ^ 53 then n
      else
        let e = dropBits a;
            q = a div 2 ^ e;
            r = a mod 2 ^ e;
            h = 2 ^ (e - 1);
            q' = (if h < r \<or> (r = h \<and> odd q) then q + 1 else q)
        in sgn n * q' * 2 ^ e)"

definition getBucketId :: "int \<Rightarrow> int \<Rightarrow> int" where
  "getBucketId column row = roundDouble (roundDouble (column * 1000000000) + row)"

subsection \<open>Buckets and pair records\<close>

text \<open>
  \<open>Grid._createBucket\<close>: the bucket comes from the free pool when the pool is not empty,
  and is registered under the cell identifier. The result is the grid and the bucket.
\<close>

definition createBucket :: "grid \<Rightarrow> int \<Rightarrow> grid \<times> bucket" where
  "createBucket g bucketId =
     (let free = freeBuckets g;
          (b, free') = (if length free > 0 then (last free, butlast free) else ([], free))
      in (g\<lparr>freeBuckets := free', buckets := AList.update bucketId b (buckets g)\<rparr>, b))"

text \<open>
  The loop of \<open>Grid._bucketAddBody\<close> over the bodies already in the bucket: the pair record
  of the new body and each of them is created with count 1 or has its count incremented.
\<close>

fun addPairs :: "heap \<Rightarrow> ref \<Rightarrow> bucket \<Rightarrow> (pairId \<times> pair) list \<Rightarrow> (pairId \<times> pair) list" where
  "addPairs h b [] ps = ps"
| "addPairs h b (bodyB # rest) ps =
     (if body_id (h b) = body_id (h bodyB) \<or> (isStatic (h b) \<and> isStatic (h bodyB))
      then addPairs h b rest ps
      else
        (let pairId = pair_id (h b) (h bodyB) in
         case map_of ps pairId of
           Some (pa, pb, n) \<Rightarrow> addPairs h b rest (AList.update pairId (pa, pb, n + 1) ps)
         | None \<Rightarrow> addPairs h b rest (AList.update pairId (b, bodyB, 1) ps)))"

text \<open>
  \<open>Grid._bucketAddBody\<close> mutates the pair table of the grid and the bucket array; the model
  returns both.
\<close>

definition bucketAddBody ::
  "heap \<Rightarrow> (pairId \<times> pair) list \<Rightarrow> bucket \<Rightarrow> ref \<Rightarrow> (pairId \<times> pair) list \<times> bucket" where
  "bucketAddBody h ps bkt b = (addPairs h b bkt ps, bkt @ [b])"

text \<open>
  The loop of \<open>Grid._bucketRemoveBody\<close> over the bodies left in the bucket: an existing pair
  record has its count decremented.
\<close>

fun removePairs :: "heap \<Rightarrow> ref \<Rightarrow> bucket \<Rightarrow> (pairId \<times> pair) list \<Rightarrow> (pairId \<times> pair) list" where
  "removePairs h b [] ps = ps"
| "removePairs h b (bodyB # rest) ps =
     (let pairId = pair_id (h b) (h bodyB) in
      case map_of ps pairId of
        Some (pa, pb, n) \<Rightarrow> removePairs h b rest (AList.update pairId (pa, pb, n - 1) ps)
      | None \<Rightarrow> removePairs h b rest ps)"

text \<open>
  \<open>Grid._bucketRemoveBody\<close>: the last element is moved to the position of the body and the
  array is shortened by one. When the body is not in the bucket the position is \<open>-1\<close>: the
  assignment \<open>bucket[-1] = ...\<close> then sets a property that is no element of the array, and
  the last element is dropped all the same. \<open>bucket.length--\<close> on an empty array raises a
  RangeError.
\<close>

definition bucketRemoveBody ::
  "heap \<Rightarrow> (pairId \<times> pair) list \<Rightarrow> bucket \<Rightarrow> ref
    \<Rightarrow> error + ((pairId \<times> pair) list \<times> bucket)" where
  "bucketRemoveBody h ps bkt b =
     (let index = indexOf bkt b;
          bkt1 = (if 0 \<le> index then bkt[nat index := last bkt] else bkt)
      in if bkt1 = [] then Inl RangeError
         else (let bkt2 = butlast bkt1 in Inr (removePairs h b bkt2 ps, bkt2)))"

subsection \<open>The list of active pairs\<close>

text \<open>
  The loop of \<open>Grid._createActivePairsList\<close> over the keys taken from the pair table before
  the loop. Reading the count of a record that is not in the table would raise a TypeError.
\<close>

fun activePairsLoop ::
  "pairId list \<Rightarrow> (pairId \<times> pair) list \<Rightarrow> pair list
    \<Rightarrow> error + ((pairId \<times> pair) list \<times> pair list)" where
  "activePairsLoop [] tbl out = Inr (tbl, out)"
| "activePairsLoop (k # ks) tbl out =
     (case map_of tbl k of
        None \<Rightarrow> Inl TypeError
      | Some (pa, pb, n) \<Rightarrow>
          (if n > 0 then activePairsLoop ks tbl (out @ [(pa, pb, n)])
           else activePairsLoop ks (AList.delete k tbl) out))"

definition createActivePairsList :: "grid \<Rightarrow> error + grid" where
  "createActivePairsList g =
     (case activePairsLoop (keys (pairs g)) (pairs g) [] of
        Inl e \<Rightarrow> Inl e
      | Inr (tbl, out) \<Rightarrow> Inr (g\<lparr>pairs := tbl, pairsList := out\<rparr>))"

subsection \<open>Creating and clearing the grid\<close>

text \<open>\<open>Grid.create\<close> with the defaults, the cell size taken from the options.\<close>

definition grid_create :: "real \<Rightarrow> real \<Rightarrow> grid" where
  "grid_create w h =
     \<lparr>buckets = [], freeBuckets = [], pairs = [], pairsList = [],
      bucketWidth = w, bucketHeight = h,
      scratch_union = createRegion 0 0 0 0, scratch_current = createRegion 0 0 0 0\<rparr>"

text \<open>
  The loop of \<open>Grid.clear\<close> over the entries of the bucket map: the bucket is truncated,
  pushed on the free pool and its key deleted.
\<close>

fun clearLoop :: "(int \<times> bucket) list \<Rightarrow> grid \<Rightarrow> grid" where
  "clearLoop [] g = g"
| "clearLoop ((key, bkt) # rest) g =
     clearLoop rest
       (g\<lparr>freeBuckets := freeBuckets g @ [take 0 bkt],
          buckets := AList.delete key (buckets g)\<rparr>)"

definition grid_clear :: "grid \<Rightarrow> grid" where
  "grid_clear g = (clearLoop (buckets g) g)\<lparr>pairs := [], pairsList := []\<rparr>"

subsection \<open>Updating the grid\<close>

text \<open>The test of \<open>Grid.update\<close> that skips a body out of the world.\<close>

definition outOfWorld :: "aabb \<Rightarrow> aabb \<Rightarrow> bool" where
  "outOfWorld bb wb =
     (max_x bb < min_x wb \<or> min_x bb > max_x wb
      \<or> max_y bb < min_y wb \<or> min_y bb > max_y wb)"

text \<open>The test written twice in the loop, as \<open>isInsideNewRegion\<close> and \<open>isInsideOldRegion\<close>.\<close>

definition isInsideRegion :: "int \<Rightarrow> int \<Rightarrow> region \<Rightarrow> bool" where
  "isInsideRegion col row rg =
     (col \<ge> startCol rg \<and> col \<le> endCol rg \<and> row \<ge> startRow rg \<and> row \<le> endRow rg)"

text \<open>
  The two blocks in the body of the nested loops of \<open>Grid.update\<close>. The first removes the
  body from the bucket of the cell, when the cell has a bucket (\<open>if (bucket)\<close>). The second
  creates the bucket when the cell has none (\<open>if (!bucket)\<close>) and adds the body to it.
\<close>

definition removeFromOld :: "heap \<Rightarrow> ref \<Rightarrow> int \<Rightarrow> grid \<Rightarrow> error + grid" where
  "removeFromOld h b bucketId g =
     (case map_of (buckets g) bucketId of
        None \<Rightarrow> Inr g
      | Some bkt \<Rightarrow>
          (case bucketRemoveBody h (pairs g) bkt b of
             Inl e \<Rightarrow> Inl e
           | Inr (ps, bkt') \<Rightarrow>
               Inr (g\<lparr>pairs := ps, buckets := AList.update bucketId bkt' (buckets g)\<rparr>)))"

definition addToNew :: "heap \<Rightarrow> ref \<Rightarrow> int \<Rightarrow> grid \<Rightarrow> grid" where
  "addToNew h b bucketId g =
     (let (g2, bkt) =
            (case map_of (buckets g) bucketId of
               None \<Rightarrow> createBucket g bucketId
             | Some bkt \<Rightarrow> (g, bkt));
          (ps, bkt') = bucketAddBody h (pairs g2) bkt b
      in g2\<lparr>pairs := ps, buckets := AList.update bucketId bkt' (buckets g2)\<rparr>)"

text \<open>
  The body of the two nested loops of \<open>Grid.update\<close>, for one cell: \<open>oldRegion\<close> is
  \<open>body.region\<close> as it is during the loops, \<open>createRgn\<close> the flag \<open>createRegion\<close>.
\<close>

definition cellStep ::
  "heap \<Rightarrow> ref \<Rightarrow> bool \<Rightarrow> bool \<Rightarrow> region \<Rightarrow> region \<Rightarrow> int \<times> int \<Rightarrow> grid \<Rightarrow> error + grid" where
  "cellStep h b forceUpdate createRgn newRegion oldRegion cell g =
     (let bucketId = getBucketId (fst cell) (snd cell);
          isInsideNewRegion = isInsideRegion (fst cell) (snd cell) newRegion;
          isInsideOldRegion = isInsideRegion (fst cell) (snd cell) oldRegion;
          removed =
            (if \<not> isInsideNewRegion \<and> isInsideOldRegion then removeFromOld h b bucketId g
             else Inr g)
      in case removed of
           Inl e \<Rightarrow> Inl e
         | Inr g1 \<Rightarrow>
             (if createRgn \<or> (isInsideNewRegion \<and> \<not> isInsideOldRegion) \<or> forceUpdate
              then Inr (addToNew h b bucketId g1)
              else Inr g1))"

text \<open>The cells of a region in the order of the two loops: columns outside, rows inside.\<close>

definition regionCells :: "region \<Rightarrow> (int \<times> int) list" where
  "regionCells u = List.product [startCol u..endCol u] [startRow u..endRow u]"

fun cellLoop ::
  "heap \<Rightarrow> ref \<Rightarrow> bool \<Rightarrow> bool \<Rightarrow> region \<Rightarrow> region \<Rightarrow> (int \<times> int) list \<Rightarrow> grid
    \<Rightarrow> error + grid" where
  "cellLoop h b forceUpdate createRgn newRegion oldRegion [] g = Inr g"
| "cellLoop h b forceUpdate createRgn newRegion oldRegion (cell # cells) g =
     (case cellStep h b forceUpdate createRgn newRegion oldRegion cell g of
        Inl e \<Rightarrow> Inl e
      | Inr g' \<Rightarrow> cellLoop h b forceUpdate createRgn newRegion oldRegion cells g')"

text \<open>
  The body of the loop of \<open>Grid.update\<close> over the bodies. The state is the grid, the heap
  and the flag \<open>gridChanged\<close>.
\<close>

definition updateBody ::
  "aabb \<Rightarrow> bool \<Rightarrow> ref \<Rightarrow> grid \<times> heap \<times> bool \<Rightarrow> error + (grid \<times> heap \<times> bool)" where
  "updateBody worldBounds forceUpdate b s =
     (let (g, h, gridChanged) = s in
      if isSleeping (h b) \<and> \<not> forceUpdate then Inr s
      else if outOfWorld (bounds (h b)) worldBounds then Inr s
      else
        (let newRegion = getRegion g (scratch_current g) (h b);
             g1 = g\<lparr>scratch_current := newRegion\<rparr>
         in if body_region (h b) = None
               \<or> \<not> isSameRegion (body_region (h b)) (Some newRegion) \<or> forceUpdate
            then
              (let un = (case body_region (h b) of
                           None \<Rightarrow> setRegion (scratch_union g1) newRegion
                         | Some rg \<Rightarrow>
                             if forceUpdate then setRegion (scratch_union g1) newRegion
                             else regionUnion (scratch_union g1) newRegion rg);
                   createRgn = (body_region (h b) = None);
                   oldRegion = (case body_region (h b) of
                                  None \<Rightarrow> createRegionFrom newRegion
                                | Some rg \<Rightarrow> rg);
                   h1 = (if createRgn then h(b := (h b)\<lparr>body_region := Some oldRegion\<rparr>)
                         else h)
               in case cellLoop h1 b forceUpdate createRgn newRegion oldRegion
                         (regionCells un) (g1\<lparr>scratch_union := un\<rparr>) of
                    Inl e \<Rightarrow> Inl e
                  | Inr g2 \<Rightarrow>
                      Inr (g2,
                           h1(b := (h1 b)\<lparr>body_region := Some (setRegion oldRegion newRegion)\<rparr>),
                           True))
            else Inr (g1, h, gridChanged)))"

fun updateLoop ::
  "aabb \<Rightarrow> bool \<Rightarrow> ref list \<Rightarrow> grid \<times> heap \<times> bool \<Rightarrow> error + (grid \<times> heap \<times> bool)" where
  "updateLoop worldBounds forceUpdate [] s = Inr s"
| "updateLoop worldBounds forceUpdate (b # bodies) s =
     (case updateBody worldBounds forceUpdate b s of
        Inl e \<Rightarrow> Inl e
      | Inr s' \<Rightarrow> updateLoop worldBounds forceUpdate bodies s')"

text \<open>
  \<open>Grid.update(grid, bodies, engine, forceUpdate)\<close>; of the engine only
  \<open>engine.world.bounds\<close> is read. The result is the grid and the heap, or the error raised.
\<close>

definition grid_update ::
  "grid \<Rightarrow> heap \<Rightarrow> ref list \<Rightarrow> aabb \<Rightarrow> bool \<Rightarrow> error + (grid \<times> heap)" where
  "grid_update g h bodies worldBounds forceUpdate =
     (case updateLoop worldBounds forceUpdate bodies (g, h, False) of
        Inl e \<Rightarrow> Inl e
      | Inr (g', h', gridChanged) \<Rightarrow>
          (if gridChanged then
             (case createActivePairsList g' of
                Inl e \<Rightarrow> Inl e
              | Inr g'' \<Rightarrow> Inr (g'', h'))
           else Inr (g', h')))"

subsection \<open>Reachable states\<close>

text \<open>
  Between two calls the caller may move a body, put it to sleep or wake it, and make it
  static or not. The identifier of a body and the region the grid stored in it stay.
\<close>

definition externalStep :: "heap \<Rightarrow> heap \<Rightarrow> bool" where
  "externalStep h h' =
     (\<forall>r. body_id (h' r) = body_id (h r) \<and> body_region (h' r) = body_region (h r))"

text \<open>
  The states of a grid and the bodies it is used with: a new grid with bodies that have no
  region yet, then any sequence of successful updates (any list of bodies, any world
  bounds, forced or not), of clears and of changes made to the bodies by the caller.
\<close>

inductive reachable :: "grid \<Rightarrow> heap \<Rightarrow> bool" where
  init: "(\<And>r. body_region (h r) = None) \<Longrightarrow> reachable (grid_create w ht) h"
| update: "reachable g h \<Longrightarrow> grid_update g h bodies worldBounds forceUpdate = Inr (g', h')
    \<Longrightarrow> reachable g' h'"
| clear: "reachable g h \<Longrightarrow> reachable (grid_clear g) h"
| external: "reachable g h \<Longrightarrow> externalStep h h' \<Longrightarrow> reachable g h'"

text \<open>No pair record of the list has the same body, or two bodies with one identifier.\<close>

definition noSelfPairs :: "heap \<Rightarrow> pair list \<Rightarrow> bool" where
  "noSelfPairs h ps = (\<forall>(pa, pb, n) \<in> set ps. pa \<noteq> pb \<and> body_id (h pa) \<noteq> body_id (h pb))"

subsection \<open>Bodies and a world for the examples\<close>

definition mkBody :: "nat \<Rightarrow> bool \<Rightarrow> bool \<Rightarrow> real \<Rightarrow> real \<Rightarrow> real \<Rightarrow> real \<Rightarrow> body" where
  "mkBody i st sl x0 y0 x1 y1 =
     \<lparr>body_id = i, isStatic = st, isSleeping = sl,
      bounds = \<lparr>min_x = x0, min_y = y0, max_x = x1, max_y = y1\<rparr>, body_region = None\<rparr>"

definition world800 :: aabb where
  "world800 = \<lparr>min_x = 0, min_y = 0, max_x = 800, max_y = 600\<rparr>"

text \<open>Every body is awake, not static and has the bounds 0..10 on both axes.\<close>

definition heap0 :: heap where
  "heap0 = (\<lambda>r. mkBody r False False 0 0 10 10)"

definition region0 :: region where
  "region0 = \<lparr>startCol = 0, endCol = 0, startRow = 0, endRow = 0\<rparr>"

lemmas grid_defs =
  grid_update_def grid_create_def updateBody_def outOfWorld_def getRegion_def
  createRegion_def isSameRegion_def setRegion_def createRegionFrom_def regionCells_def
  cellStep_def removeFromOld_def addToNew_def getBucketId_def roundDouble_def isInsideRegion_def createBucket_def
  bucketAddBody_def bucketRemoveBody_def createActivePairsList_def keys_def regionUnion_def
  pair_id_def grid_clear_def Let_def

lemmas example_defs = mkBody_def world800_def heap0_def region0_def

subsection \<open>Frame of an update\<close>

text \<open>
  One step of the loop over the bodies keeps the cell size and every field of every body
  but the region, and the region of a body is kept or set to the region of its bounds.
\<close>

definition stepFrame :: "grid \<Rightarrow> heap \<Rightarrow> grid \<times> heap \<times> bool \<Rightarrow> bool" where
  "stepFrame g h s =
     (case s of (g', h', c') \<Rightarrow>
        bucketWidth g' = bucketWidth g \<and> bucketHeight g' = bucketHeight g
        \<and> (\<forall>r. body_id (h' r) = body_id (h r) \<and> isStatic (h' r) = isStatic (h r)
                \<and> isSleeping (h' r) = isSleeping (h r) \<and> bounds (h' r) = bounds (h r)
                \<and> (body_region (h' r) = body_region (h r)
                    \<or> body_region (h' r) = Some (getRegion g (scratch_current g) (h r)))))"

subsection \<open>Reading a grid\<close>

text \<open>The bucket of a cell identifier; a cell without a bucket holds nothing.\<close>

definition bucketAt :: "grid \<Rightarrow> int \<Rightarrow> bucket" where
  "bucketAt g k = (case map_of (buckets g) k of None \<Rightarrow> [] | Some bkt \<Rightarrow> bkt)"

text \<open>
  What holds of the two hash maps and of the free pool in every reachable state: one entry
  per key, and only empty buckets in the pool.
\<close>

definition wfGrid :: "grid \<Rightarrow> bool" where
  "wfGrid g =
     (distinct (map fst (buckets g)) \<and> distinct (map fst (pairs g))
      \<and> (\<forall>x \<in> set (freeBuckets g). x = []))"


subsection \<open>Shared cells and pair counts\<close>

definition cellId :: "int \<times> int \<Rightarrow> int" where
  "cellId cell = getBucketId (fst cell) (snd cell)"

text \<open>The identifiers of the cells of a region.\<close>

definition regionIds :: "region \<Rightarrow> int set" where
  "regionIds rg = cellId ` set (regionCells rg)"

text \<open>
  A region whose cells get identifiers that are computed exactly and are pairwise distinct:
  columns up to 9007198 and rows below 500000000 in magnitude.
\<close>

definition safeRegion :: "region \<Rightarrow> bool" where
  "safeRegion rg =
     (\<bar>startCol rg\<bar> \<le> 9007198 \<and> \<bar>endCol rg\<bar> \<le> 9007198
      \<and> \<bar>startRow rg\<bar> < 500000000 \<and> \<bar>endRow rg\<bar> < 500000000)"













subsection \<open>One reference to a body in a bucket\<close>

text \<open>
  The invariant of the loops over the cells for the place of the body \<open>b\<close> alone: no bucket
  holds a body twice, \<open>b\<close> is only in buckets of cells the loops have reached and that it
  wants, or have not reached and that it was in, and no bucket has gained another body.
\<close>

definition placedCells ::
  "ref \<Rightarrow> grid \<Rightarrow> (int \<times> int) list \<Rightarrow> (int \<times> int \<Rightarrow> bool) \<Rightarrow> (int \<times> int \<Rightarrow> bool)
    \<Rightarrow> (int \<times> int) list \<Rightarrow> grid \<Rightarrow> bool" where
  "placedCells b g0 cells was want pre g =
     (wfGrid g \<and> (\<forall>k. distinct (bucketAt g k))
      \<and> (\<forall>k. b \<in> set (bucketAt g k) \<longrightarrow>
              (\<exists>cell \<in> set cells. cellId cell = k
                  \<and> (if cell \<in> set pre then want cell else was cell)))
      \<and> (\<forall>k. set (bucketAt g k) - {b} \<subseteq> set (bucketAt g0 k)))"

text \<open>
  No bucket holds a body twice, and a body is only in buckets of cells of the region stored
  in it. After a clear a body has a region and is in no bucket, so this goes one way only.
\<close>

definition placed :: "heap \<Rightarrow> grid \<Rightarrow> bool" where
  "placed h g =
     (wfGrid g \<and> (\<forall>k. distinct (bucketAt g k))
      \<and> (\<forall>x k. x \<in> set (bucketAt g k) \<longrightarrow>
                (\<exists>rg. body_region (h x) = Some rg \<and> k \<in> regionIds rg))
      \<and> (\<forall>x rg. body_region (h x) = Some rg \<longrightarrow> safeRegion rg))"

text \<open>
  The states reached from a new grid when an update is forced only on a grid that has just
  been cleared, and then with a list that names no body twice: updates that are not forced,
  clears, a clear followed by a forced update, and the changes the caller makes to the
  bodies. The regions of the updated bodies are safe.
\<close>

inductive reachableRegular :: "grid \<Rightarrow> heap \<Rightarrow> bool" where
  init: "(\<And>r. body_region (h r) = None) \<Longrightarrow> reachableRegular (grid_create w ht) h"
| update: "reachableRegular g h
    \<Longrightarrow> (\<And>b. b \<in> set bodies \<Longrightarrow> safeRegion (getRegion g (scratch_current g) (h b)))
    \<Longrightarrow> grid_update g h bodies worldBounds False = Inr (g', h')
    \<Longrightarrow> reachableRegular g' h'"
| clear: "reachableRegular g h \<Longrightarrow> reachableRegular (grid_clear g) h"
| refill: "reachableRegular g h \<Longrightarrow> distinct bodies
    \<Longrightarrow> (\<And>b. b \<in> set bodies \<Longrightarrow> safeRegion (getRegion g (scratch_current g) (h b)))
    \<Longrightarrow> grid_update (grid_clear g) h bodies worldBounds True = Inr (g', h')
    \<Longrightarrow> reachableRegular g' h'"
| external: "reachableRegular g h \<Longrightarrow> externalStep h h' \<Longrightarrow> reachableRegular g h'"

subsection \<open>States for the examples\<close>

text \<open>Bodies 1 and 2 in the one cell (0, 0), after a first update of both.\<close>

definition gridTwo :: grid where
  "gridTwo =
     \<lparr>buckets = [(0, [1, 2])], freeBuckets = [], pairs = [((1, 2), 2, 1, 1)],
      pairsList = [(2, 1, 1)], bucketWidth = 48, bucketHeight = 48,
      scratch_union = region0, scratch_current = region0\<rparr>"

definition heapTwo :: heap where
  "heapTwo = heap0(1 := (heap0 1)\<lparr>body_region := Some region0\<rparr>,
                   2 := (heap0 2)\<lparr>body_region := Some region0\<rparr>)"

text \<open>The caller moves a body.\<close>

definition moveTo :: "heap \<Rightarrow> ref \<Rightarrow> real \<Rightarrow> real \<Rightarrow> real \<Rightarrow> real \<Rightarrow> heap" where
  "moveTo h r x0 y0 x1 y1 =
     h(r := (h r)\<lparr>bounds := \<lparr>min_x = x0, min_y = y0, max_x = x1, max_y = y1\<rparr>\<rparr>)"

text \<open>Every body has the bounds 0..130 by 0..10, which cover the cells (0, 0), (1, 0), (2, 0).\<close>

definition heapWide :: heap where
  "heapWide = (\<lambda>r. mkBody r False False 0 0 130 10)"

definition regionWide :: region where
  "regionWide = \<lparr>startCol = 0, endCol = 2, startRow = 0, endRow = 0\<rparr>"

definition gridWide :: grid where
  "gridWide =
     \<lparr>buckets = [(0, [1, 2]), (1000000000, [1, 2]), (2000000000, [1, 2])],
      freeBuckets = [], pairs = [((1, 2), 2, 1, 3)], pairsList = [(2, 1, 3)],
      bucketWidth = 48, bucketHeight = 48,
      scratch_union = regionWide, scratch_current = regionWide\<rparr>"

definition heapWide1 :: heap where
  "heapWide1 = heapWide(1 := (heapWide 1)\<lparr>body_region := Some regionWide\<rparr>,
                        2 := (heapWide 2)\<lparr>body_region := Some regionWide\<rparr>)"

lemmas state_defs =
  gridTwo_def heapTwo_def moveTo_def heapWide_def regionWide_def gridWide_def heapWide1_def

section \<open>Properties\<close>

subsection \<open>Regions and cell identifiers\<close>

lemma roundDouble_exact: "\<bar>n\<bar> < 2 ^ 53 \<Longrightarrow> roundDouble n = n"
  by (simp add: roundDouble_def)

lemma getBucketId_exact:
  assumes "\<bar>column\<bar> \<le> 9007198" and "\<bar>row\<bar> < 1000000000"
  shows "getBucketId column row = column * 1000000000 + row"
proof -
  have p: "\<bar>column * 1000000000\<bar> \<le> 9007198000000000"
    using assms(1) by (simp add: abs_mult)
  then have "roundDouble (column * 1000000000) = column * 1000000000"
    by (intro roundDouble_exact) simp
  moreover have "\<bar>column * 1000000000 + row\<bar> < 2 ^ 53"
    using p assms(2) by simp
  ultimately show ?thesis
    by (simp add: getBucketId_def roundDouble_exact)
qed

lemma stride_inj:
  fixes c1 c2 r1 r2 :: int
  assumes "c1 * 1000000000 + r1 = c2 * 1000000000 + r2" and "\<bar>r1 - r2\<bar> < 1000000000"
  shows "c1 = c2 \<and> r1 = r2"
proof -
  have e: "(c1 - c2) * 1000000000 = r2 - r1"
    using assms(1) by (simp add: algebra_simps)
  have "c1 - c2 = 0"
  proof (rule ccontr)
    assume "c1 - c2 \<noteq> 0"
    then have "1 \<le> \<bar>c1 - c2\<bar>" by simp
    then have "1000000000 \<le> \<bar>c1 - c2\<bar> * \<bar>1000000000\<bar>" by simp
    also have "\<dots> = \<bar>(c1 - c2) * 1000000000\<bar>" by (rule abs_mult [symmetric])
    also have "\<dots> = \<bar>r2 - r1\<bar>" by (simp only: e)
    finally show False using assms(2) by simp
  qed
  then show ?thesis using e by simp
qed


text \<open>
  C9, as stated, fails: the cells (1, -1) and (0, 999999999) are distinct, all four
  coordinates are below the stride in magnitude, and both get the identifier 999999999.
\<close>

theorem getBucketId_collision:
  "(1::int, -1::int) \<noteq> (0, 999999999)
   \<and> \<bar>1::int\<bar> < 1000000000 \<and> \<bar>-1::int\<bar> < 1000000000
   \<and> \<bar>0::int\<bar> < 1000000000 \<and> \<bar>999999999::int\<bar> < 1000000000
   \<and> getBucketId 1 (-1) = getBucketId 0 999999999"
  by (simp add: getBucketId_def roundDouble_def)

text \<open>
  C9, amended: two distinct cells get distinct identifiers when their rows differ by less
  than the stride 1000000000 (as do any two rows between 0 and 999999999) and the
  coordinates are small enough for the identifier to be computed exactly on doubles
  (columns up to 9007198 and rows below the stride, in magnitude).
\<close>

theorem getBucketId_inj:
  assumes "\<bar>col1\<bar> \<le> 9007198" and "\<bar>col2\<bar> \<le> 9007198"
    and "\<bar>row1\<bar> < 1000000000" and "\<bar>row2\<bar> < 1000000000"
    and "\<bar>row1 - row2\<bar> < 1000000000"
    and "(col1, row1) \<noteq> (col2, row2)"
  shows "getBucketId col1 row1 \<noteq> getBucketId col2 row2"
  using assms stride_inj [of col1 row1 col2 row2]
  by (auto simp: getBucketId_exact)

theorem getBucketId_inj_witness:
  "\<bar>2::int\<bar> \<le> 9007198 \<and> \<bar>-3::int\<bar> \<le> 9007198
   \<and> \<bar>-7::int\<bar> < 1000000000 \<and> \<bar>5::int\<bar> < 1000000000
   \<and> \<bar>(-7) - 5 :: int\<bar> < 1000000000 \<and> (2::int, -7::int) \<noteq> (-3, 5)
   \<and> getBucketId 2 (-7) \<noteq> getBucketId (-3) 5"
  using getBucketId_inj [of 2 "-3" "-7" 5] by simp

text \<open>Beyond that range the rounding of doubles merges neighbouring rows.\<close>

lemma getBucketId_rounds: "getBucketId 999999999 0 = getBucketId 999999999 1"
  by code_simp

subsection \<open>The list of active pairs\<close>

lemma map_of_append_fresh:
  "k \<notin> fst ` set xs \<Longrightarrow> map_of (xs @ (k, v) # ys) k = Some v"
  by (induction xs) auto

lemma delete_middle:
  assumes "k \<notin> fst ` set xs" and "k \<notin> fst ` set ys"
  shows "AList.delete k (xs @ (k, v) # ys) = xs @ ys"
proof -
  have "AList.delete k (xs @ (k, v) # ys) = AList.delete k xs @ AList.delete k ys"
    by (simp add: AList.delete_eq)
  with assms show ?thesis
    by simp
qed

lemma activePairsLoop_filter:
  "distinct (map fst (xs @ ys)) \<Longrightarrow>
   activePairsLoop (map fst ys) (xs @ ys) out =
     Inr (xs @ filter (\<lambda>(k, pa, pb, n). n > 0) ys,
          out @ map snd (filter (\<lambda>(k, pa, pb, n). n > 0) ys))"
proof (induction ys arbitrary: xs out)
  case Nil
  then show ?case by simp
next
  case (Cons e ys)
  obtain k pa pb n where e: "e = (k, pa, pb, n)"
    by (cases e) auto
  from Cons.prems have fresh: "k \<notin> fst ` set xs" "k \<notin> fst ` set ys"
    and d: "distinct (map fst ((xs @ [e]) @ ys))"
    by (auto simp: e)
  have look: "map_of (xs @ e # ys) k = Some (pa, pb, n)"
    using map_of_append_fresh [OF fresh(1)] by (simp only: e)
  show ?case
  proof (cases "n > 0")
    case True
    with Cons.IH [OF d, of "out @ [(pa, pb, n)]"] look show ?thesis
      by (simp add: e)
  next
    case False
    from Cons.prems have d': "distinct (map fst (xs @ ys))"
      by simp
    from False Cons.IH [OF d', of out] look fresh show ?thesis
      by (simp add: e delete_middle)
  qed
qed

text \<open>
  C5: the extraction goes through every entry of the pair table; the output, emptied first,
  receives the records with a positive count in the order of the table, and the entries
  whose count is not positive are deleted, so the table is left with exactly the records
  with a positive count.
\<close>

theorem createActivePairsList_filter:
  assumes "distinct (map fst (pairs g))"
  shows "createActivePairsList g =
           Inr (g\<lparr>pairs := filter (\<lambda>(k, pa, pb, n). n > 0) (pairs g),
                  pairsList := map snd (filter (\<lambda>(k, pa, pb, n). n > 0) (pairs g))\<rparr>)"
  using activePairsLoop_filter [of "[]" "pairs g" "[]"] assms
  by (simp add: createActivePairsList_def keys_def)

theorem createActivePairsList_filter_witness:
  "distinct (map fst [((1::nat, 2::nat), (1::nat, 2::nat, 2::int)), ((1, 3), (3, 1, 0)),
                      ((2, 3), (2, 3, - 1)), ((3, 4), (4, 3, 1))])
   \<and> createActivePairsList
        ((grid_create 48 48)\<lparr>pairs := [((1, 2), (1, 2, 2)), ((1, 3), (3, 1, 0)),
                                         ((2, 3), (2, 3, - 1)), ((3, 4), (4, 3, 1))],
                               pairsList := [(3, 1, 1)]\<rparr>)
     = Inr ((grid_create 48 48)\<lparr>pairs := [((1, 2), (1, 2, 2)), ((3, 4), (4, 3, 1))],
                                  pairsList := [(1, 2, 2), (4, 3, 1)]\<rparr>)"
  using createActivePairsList_filter
    [of "(grid_create 48 48)\<lparr>pairs := [((1, 2), (1, 2, 2)), ((1, 3), (3, 1, 0)),
                                         ((2, 3), (2, 3, - 1)), ((3, 4), (4, 3, 1))],
                               pairsList := [(3, 1, 1)]\<rparr>"]
  by (simp add: grid_create_def)

subsection \<open>Clearing the grid\<close>

lemma clearLoop_buckets:
  "buckets (clearLoop es g) = filter (\<lambda>e. fst e \<notin> fst ` set es) (buckets g)"
proof (induction es arbitrary: g)
  case Nil
  then show ?case by simp
next
  case (Cons e es)
  obtain key bkt where e: "e = (key, bkt)" by (cases e)
  show ?case
    by (auto simp: e Cons.IH AList.delete_eq intro!: filter_cong)
qed

lemma clearLoop_freeBuckets:
  "freeBuckets (clearLoop es g) = freeBuckets g @ replicate (length es) []"
proof (induction es arbitrary: g)
  case Nil
  then show ?case by simp
next
  case (Cons e es)
  obtain key bkt where e: "e = (key, bkt)" by (cases e)
  show ?case
    by (simp add: e Cons.IH replicate_append_same [symmetric] del: replicate_append_same)
qed

lemma clearLoop_other:
  "pairs (clearLoop es g) = pairs g" "pairsList (clearLoop es g) = pairsList g"
  "bucketWidth (clearLoop es g) = bucketWidth g" "bucketHeight (clearLoop es g) = bucketHeight g"
  by (induction es arbitrary: g; auto)+



subsection \<open>The steps of an update\<close>

lemma setRegion_eq [simp]: "setRegion rg src = src"
  by (cases rg, cases src) (simp add: setRegion_def)

lemma createRegionFrom_eq [simp]: "createRegionFrom r = r"
  by (cases r) (simp add: createRegionFrom_def createRegion_def)

lemma getRegion_scratch: "getRegion g rg b = getRegion g rg' b"
  by (cases rg, cases rg') (simp add: getRegion_def)

lemma isSameRegion_Some [simp]: "isSameRegion (Some a) (Some b) \<longleftrightarrow> a = b"
  by (cases a, cases b) (auto simp: isSameRegion_def)

lemma isSameRegion_None [simp]: "\<not> isSameRegion None r"
  by (simp add: isSameRegion_def)

lemma updateBody_skip:
  "isSleeping (h b) \<and> \<not> f \<or> outOfWorld (bounds (h b)) wb
   \<Longrightarrow> updateBody wb f b (g, h, c) = Inr (g, h, c)"
  by (auto simp: updateBody_def)

lemma updateBody_fresh:
  assumes "\<not> (isSleeping (h b) \<and> \<not> f)" and "\<not> outOfWorld (bounds (h b)) wb"
    and "body_region (h b) = None" and "nr = getRegion g (scratch_current g) (h b)"
  shows "updateBody wb f b (g, h, c) =
    (case cellLoop (h(b := (h b)\<lparr>body_region := Some nr\<rparr>)) b f True nr nr (regionCells nr)
            (g\<lparr>scratch_current := nr, scratch_union := nr\<rparr>) of
       Inl e \<Rightarrow> Inl e
     | Inr g2 \<Rightarrow> Inr (g2, h(b := (h b)\<lparr>body_region := Some nr\<rparr>), True))"
  using assms by (auto simp: updateBody_def Let_def split: sum.split)

lemma updateBody_forced:
  assumes "f" and "\<not> outOfWorld (bounds (h b)) wb"
    and "body_region (h b) = Some oldRegion" and "nr = getRegion g (scratch_current g) (h b)"
  shows "updateBody wb f b (g, h, c) =
    (case cellLoop h b True False nr oldRegion (regionCells nr)
            (g\<lparr>scratch_current := nr, scratch_union := nr\<rparr>) of
       Inl e \<Rightarrow> Inl e
     | Inr g2 \<Rightarrow> Inr (g2, h(b := (h b)\<lparr>body_region := Some nr\<rparr>), True))"
  using assms by (auto simp: updateBody_def Let_def split: sum.split)

lemma updateBody_same:
  assumes "\<not> isSleeping (h b)" and "\<not> f" and "\<not> outOfWorld (bounds (h b)) wb"
    and "body_region (h b) = Some nr" and "nr = getRegion g (scratch_current g) (h b)"
  shows "updateBody wb f b (g, h, c) = Inr (g\<lparr>scratch_current := nr\<rparr>, h, c)"
  using assms by (auto simp: updateBody_def Let_def split: sum.split)

lemma updateBody_moved:
  assumes "\<not> isSleeping (h b)" and "\<not> f" and "\<not> outOfWorld (bounds (h b)) wb"
    and "body_region (h b) = Some oldRegion" and "nr = getRegion g (scratch_current g) (h b)"
    and "oldRegion \<noteq> nr" and "un = regionUnion (scratch_union g) nr oldRegion"
  shows "updateBody wb f b (g, h, c) =
    (case cellLoop h b False False nr oldRegion (regionCells un)
            (g\<lparr>scratch_current := nr, scratch_union := un\<rparr>) of
       Inl e \<Rightarrow> Inl e
     | Inr g2 \<Rightarrow> Inr (g2, h(b := (h b)\<lparr>body_region := Some nr\<rparr>), True))"
  using assms by (auto simp: updateBody_def Let_def split: sum.split)

lemma updateBody_cases:
  assumes "updateBody wb f b (g, h, c) = Inr (g', h', c')"
  obtains
    (skip) "isSleeping (h b) \<and> \<not> f \<or> outOfWorld (bounds (h b)) wb"
      and "g' = g" and "h' = h" and "c' = c"
  | (same) "\<not> (isSleeping (h b) \<and> \<not> f)" and "\<not> outOfWorld (bounds (h b)) wb"
      and "body_region (h b) = Some (getRegion g (scratch_current g) (h b))" and "\<not> f"
      and "g' = g\<lparr>scratch_current := getRegion g (scratch_current g) (h b)\<rparr>"
      and "h' = h" and "c' = c"
  | (fresh) "\<not> (isSleeping (h b) \<and> \<not> f)" and "\<not> outOfWorld (bounds (h b)) wb"
      and "body_region (h b) = None"
      and "cellLoop (h(b := (h b)\<lparr>body_region := Some (getRegion g (scratch_current g) (h b))\<rparr>))
             b f True (getRegion g (scratch_current g) (h b))
             (getRegion g (scratch_current g) (h b))
             (regionCells (getRegion g (scratch_current g) (h b)))
             (g\<lparr>scratch_current := getRegion g (scratch_current g) (h b),
                scratch_union := getRegion g (scratch_current g) (h b)\<rparr>) = Inr g'"
      and "h' = h(b := (h b)\<lparr>body_region := Some (getRegion g (scratch_current g) (h b))\<rparr>)"
      and "c' = True"
  | (forced) oldRegion where "f" and "\<not> outOfWorld (bounds (h b)) wb"
      and "body_region (h b) = Some oldRegion"
      and "cellLoop h b True False (getRegion g (scratch_current g) (h b)) oldRegion
             (regionCells (getRegion g (scratch_current g) (h b)))
             (g\<lparr>scratch_current := getRegion g (scratch_current g) (h b),
                scratch_union := getRegion g (scratch_current g) (h b)\<rparr>) = Inr g'"
      and "h' = h(b := (h b)\<lparr>body_region := Some (getRegion g (scratch_current g) (h b))\<rparr>)"
      and "c' = True"
  | (moved) oldRegion where "\<not> isSleeping (h b)" and "\<not> f"
      and "\<not> outOfWorld (bounds (h b)) wb"
      and "body_region (h b) = Some oldRegion"
      and "oldRegion \<noteq> getRegion g (scratch_current g) (h b)"
      and "cellLoop h b False False (getRegion g (scratch_current g) (h b)) oldRegion
             (regionCells (regionUnion (scratch_union g)
                (getRegion g (scratch_current g) (h b)) oldRegion))
             (g\<lparr>scratch_current := getRegion g (scratch_current g) (h b),
                scratch_union := regionUnion (scratch_union g)
                  (getRegion g (scratch_current g) (h b)) oldRegion\<rparr>) = Inr g'"
      and "h' = h(b := (h b)\<lparr>body_region := Some (getRegion g (scratch_current g) (h b))\<rparr>)"
      and "c' = True"
proof (cases "isSleeping (h b) \<and> \<not> f \<or> outOfWorld (bounds (h b)) wb")
  case True
  from assms updateBody_skip [where h = h and b = b and g = g and c = c, OF True] have "g' = g" "h' = h" "c' = c"
    by simp_all
  with True skip show ?thesis by blast
next
  case active: False
  then have a: "\<not> (isSleeping (h b) \<and> \<not> f)" "\<not> outOfWorld (bounds (h b)) wb"
    by auto
  define nr where "nr = getRegion g (scratch_current g) (h b)"
  show ?thesis
  proof (cases "body_region (h b)")
    case None
    from assms updateBody_fresh [where h = h and b = b and g = g and c = c, OF a None nr_def]
    have "cellLoop (h(b := (h b)\<lparr>body_region := Some nr\<rparr>)) b f True nr nr (regionCells nr)
            (g\<lparr>scratch_current := nr, scratch_union := nr\<rparr>) = Inr g'"
      and "h' = h(b := (h b)\<lparr>body_region := Some nr\<rparr>)" and "c' = True"
      by (auto split: sum.splits)
    with a None fresh show ?thesis
      unfolding nr_def by blast
  next
    case (Some oldRegion)
    show ?thesis
    proof (cases f)
      case True
      from assms updateBody_forced [where h = h and b = b and g = g and c = c, OF True a(2) Some nr_def]
      have "cellLoop h b True False nr oldRegion (regionCells nr)
              (g\<lparr>scratch_current := nr, scratch_union := nr\<rparr>) = Inr g'"
        and "h' = h(b := (h b)\<lparr>body_region := Some nr\<rparr>)" and "c' = True"
        by (auto split: sum.splits)
      with True a Some forced [of oldRegion] show ?thesis
        unfolding nr_def by blast
    next
      case False
      with a have aw: "\<not> isSleeping (h b)" by simp
      show ?thesis
      proof (cases "oldRegion = nr")
        case True
        from assms updateBody_same [where h = h and b = b and g = g and c = c, OF aw False a(2) Some [unfolded True] nr_def]
        have "g' = g\<lparr>scratch_current := nr\<rparr>" "h' = h" "c' = c"
          by simp_all
        with a Some True False same show ?thesis
          unfolding nr_def by blast
      next
        case neq: False
        from assms updateBody_moved [where h = h and b = b and g = g and c = c, OF aw False a(2) Some nr_def neq refl]
        have "cellLoop h b False False nr oldRegion
                (regionCells (regionUnion (scratch_union g) nr oldRegion))
                (g\<lparr>scratch_current := nr,
                   scratch_union := regionUnion (scratch_union g) nr oldRegion\<rparr>) = Inr g'"
          and "h' = h(b := (h b)\<lparr>body_region := Some nr\<rparr>)" and "c' = True"
          by (auto split: sum.splits)
        with aw False a Some neq moved [of oldRegion] show ?thesis
          unfolding nr_def by blast
      qed
    qed
  qed
qed

lemma cellLoop_invariant:
  assumes "cellLoop h b f c nr orr cells g = Inr g'" and "P pre g"
    and "\<And>pre cell g g'. cell \<in> set cells \<Longrightarrow> P pre g
          \<Longrightarrow> cellStep h b f c nr orr cell g = Inr g' \<Longrightarrow> P (pre @ [cell]) g'"
  shows "P (pre @ cells) g'"
  using assms
proof (induction cells arbitrary: g pre)
  case Nil
  then show ?case by simp
next
  case (Cons cell cells)
  from Cons.prems(1) obtain g1 where s: "cellStep h b f c nr orr cell g = Inr g1"
    and l: "cellLoop h b f c nr orr cells g1 = Inr g'"
    by (auto split: sum.splits)
  have p1: "P (pre @ [cell]) g1"
    by (rule Cons.prems(3) [OF _ Cons.prems(2) s]) simp
  have "P ((pre @ [cell]) @ cells) g'"
  proof (rule Cons.IH [OF l p1])
    fix pre' cell' t t'
    assume "cell' \<in> set cells" and "P pre' t"
      and "cellStep h b f c nr orr cell' t = Inr t'"
    then show "P (pre' @ [cell']) t'"
      using Cons.prems(3) [of cell' pre' t t'] by simp
  qed
  then show ?case
    by simp
qed

lemma updateLoop_invariant:
  assumes "updateLoop wb f bodies s = Inr s'" and "P s"
    and "\<And>b s s'. b \<in> set bodies \<Longrightarrow> P s \<Longrightarrow> updateBody wb f b s = Inr s' \<Longrightarrow> P s'"
  shows "P s'"
  using assms
proof (induction bodies arbitrary: s)
  case Nil
  then show ?case by simp
next
  case (Cons b bodies)
  from Cons.prems(1) obtain s1 where s: "updateBody wb f b s = Inr s1"
    and l: "updateLoop wb f bodies s1 = Inr s'"
    by (auto split: sum.splits)
  have p1: "P s1"
    by (rule Cons.prems(3) [OF _ Cons.prems(2) s]) simp
  show ?case
  proof (rule Cons.IH [OF l p1])
    fix b' t t'
    assume "b' \<in> set bodies" and "P t" and "updateBody wb f b' t = Inr t'"
    then show "P t'"
      using Cons.prems(3) [of b' t t'] by simp
  qed
qed

lemma grid_update_cases:
  assumes "grid_update g h bodies wb f = Inr (g', h')"
  obtains
    (unchanged) "updateLoop wb f bodies (g, h, False) = Inr (g', h', False)"
  | (changed) g1 where "updateLoop wb f bodies (g, h, False) = Inr (g1, h', True)"
      and "createActivePairsList g1 = Inr g'"
  using assms
  by (auto simp: grid_update_def split: sum.splits if_splits)

lemma activePairsLoop_subset:
  "activePairsLoop ks tbl out = Inr (tbl', out')
   \<Longrightarrow> set tbl' \<subseteq> set tbl \<and> set out' \<subseteq> set out \<union> snd ` set tbl"
proof (induction ks arbitrary: tbl out)
  case Nil
  then show ?case by auto
next
  case (Cons k ks)
  from Cons.prems obtain pa pb n where look: "map_of tbl k = Some (pa, pb, n)"
    by (auto split: option.splits)
  then have mem: "(k, pa, pb, n) \<in> set tbl"
    by (rule map_of_SomeD)
  show ?case
  proof (cases "n > 0")
    case True
    with Cons.prems look have "activePairsLoop ks tbl (out @ [(pa, pb, n)]) = Inr (tbl', out')"
      by simp
    from Cons.IH [OF this] mem show ?thesis
      by force
  next
    case False
    with Cons.prems look have "activePairsLoop ks (AList.delete k tbl) out = Inr (tbl', out')"
      by simp
    from Cons.IH [OF this] show ?thesis
      by (auto simp: AList.delete_eq)
  qed
qed

lemma createActivePairsList_subset:
  assumes "createActivePairsList g = Inr g'"
  shows "set (pairs g') \<subseteq> set (pairs g)" and "set (pairsList g') \<subseteq> snd ` set (pairs g)"
    and "buckets g' = buckets g" and "freeBuckets g' = freeBuckets g"
    and "bucketWidth g' = bucketWidth g" and "bucketHeight g' = bucketHeight g"
  using assms activePairsLoop_subset [of "keys (pairs g)" "pairs g" "[]"]
  by (auto simp: createActivePairsList_def split: sum.splits)

subsection \<open>No pair of a body with itself\<close>

lemma set_update_subset: "set (AList.update k v al) \<subseteq> insert (k, v) (set al)"
  by (induction al) auto

lemma set_delete_subset: "set (AList.delete k al) \<subseteq> set al"
  by (auto simp: AList.delete_eq)

lemma addPairs_noSelf:
  "noSelfPairs h (map snd ps) \<Longrightarrow> noSelfPairs h (map snd (addPairs h b bkt ps))"
proof (induction bkt arbitrary: ps)
  case Nil
  then show ?case by simp
next
  case (Cons bodyB rest)
  show ?case
  proof (cases "body_id (h b) = body_id (h bodyB) \<or> (isStatic (h b) \<and> isStatic (h bodyB))")
    case True
    with Cons show ?thesis by simp
  next
    case False
    let ?k = "pair_id (h b) (h bodyB)"
    show ?thesis
    proof (cases "map_of ps ?k")
      case None
      have "noSelfPairs h (map snd (AList.update ?k (b, bodyB, 1) ps))"
        using Cons.prems False set_update_subset [of ?k "(b, bodyB, 1)" ps]
        by (fastforce simp: noSelfPairs_def)
      from Cons.IH [OF this] False None show ?thesis by auto
    next
      case (Some p)
      obtain pa pb n where p: "p = (pa, pb, n)" by (cases p)
      from Some have "(?k, pa, pb, n) \<in> set ps"
        by (simp add: p map_of_SomeD)
      then have "noSelfPairs h (map snd (AList.update ?k (pa, pb, n + 1) ps))"
        using Cons.prems set_update_subset [of ?k "(pa, pb, n + 1)" ps]
        by (fastforce simp: noSelfPairs_def)
      from Cons.IH [OF this] False Some show ?thesis by (auto simp: p)
    qed
  qed
qed

lemma removePairs_noSelf:
  "noSelfPairs h (map snd ps) \<Longrightarrow> noSelfPairs h (map snd (removePairs h b bkt ps))"
proof (induction bkt arbitrary: ps)
  case Nil
  then show ?case by simp
next
  case (Cons bodyB rest)
  let ?k = "pair_id (h b) (h bodyB)"
  show ?case
  proof (cases "map_of ps ?k")
    case None
    with Cons show ?thesis by simp
  next
    case (Some p)
    obtain pa pb n where p: "p = (pa, pb, n)" by (cases p)
    from Some have "(?k, pa, pb, n) \<in> set ps"
      by (simp add: p map_of_SomeD)
    then have "noSelfPairs h (map snd (AList.update ?k (pa, pb, n - 1) ps))"
      using Cons.prems set_update_subset [of ?k "(pa, pb, n - 1)" ps]
      by (fastforce simp: noSelfPairs_def)
    from Cons.IH [OF this] Some show ?thesis by (simp add: p)
  qed
qed

lemma removeFromOld_noSelf:
  assumes "removeFromOld h b k g = Inr g'" and "noSelfPairs h (map snd (pairs g))"
  shows "noSelfPairs h (map snd (pairs g')) \<and> pairsList g' = pairsList g"
  using assms
  by (auto simp: removeFromOld_def bucketRemoveBody_def Let_def removePairs_noSelf
      split: if_splits option.splits sum.splits)

lemma addToNew_noSelf:
  assumes "noSelfPairs h (map snd (pairs g))"
  shows "noSelfPairs h (map snd (pairs (addToNew h b k g)))
         \<and> pairsList (addToNew h b k g) = pairsList g"
  using assms
  by (auto simp: addToNew_def bucketAddBody_def createBucket_def Let_def addPairs_noSelf
      split: option.splits)

lemma cellStep_noSelf:
  assumes "cellStep h b f c nr orr cell g = Inr g'" and "noSelfPairs h (map snd (pairs g))"
  shows "noSelfPairs h (map snd (pairs g')) \<and> pairsList g' = pairsList g"
proof -
  from assms(1) obtain g1 where
    r: "g1 = g \<or> removeFromOld h b (getBucketId (fst cell) (snd cell)) g = Inr g1"
    and a: "g' = g1 \<or> g' = addToNew h b (getBucketId (fst cell) (snd cell)) g1"
    by (auto simp: cellStep_def Let_def split: if_splits sum.splits)
  from r assms(2) removeFromOld_noSelf
  have "noSelfPairs h (map snd (pairs g1)) \<and> pairsList g1 = pairsList g"
    by blast
  with a addToNew_noSelf show ?thesis
    by metis
qed

lemma cellLoop_noSelf:
  "cellLoop h b f c nr orr cells g = Inr g' \<Longrightarrow> noSelfPairs h (map snd (pairs g))
   \<Longrightarrow> noSelfPairs h (map snd (pairs g')) \<and> pairsList g' = pairsList g"
proof (induction cells arbitrary: g)
  case Nil
  then show ?case by simp
next
  case (Cons cell cells)
  from Cons.prems(1) obtain g1 where s: "cellStep h b f c nr orr cell g = Inr g1"
    and l: "cellLoop h b f c nr orr cells g1 = Inr g'"
    by (auto split: sum.splits)
  from cellStep_noSelf [OF s Cons.prems(2)] Cons.IH [OF l] show ?case
    by simp
qed

lemma noSelfPairs_ids:
  "(\<And>r. body_id (h' r) = body_id (h r)) \<Longrightarrow> noSelfPairs h' ps = noSelfPairs h ps"
  by (simp add: noSelfPairs_def)

lemma noSelfPairs_subset: "noSelfPairs h ps \<Longrightarrow> set qs \<subseteq> set ps \<Longrightarrow> noSelfPairs h qs"
  by (auto simp: noSelfPairs_def)

lemma updateBody_noSelf:
  assumes "updateBody wb f b (g, h, c) = Inr (g', h', c')"
    and "noSelfPairs h (map snd (pairs g)) \<and> noSelfPairs h (pairsList g)"
  shows "noSelfPairs h' (map snd (pairs g')) \<and> noSelfPairs h' (pairsList g')"
  using assms(1)
proof (cases rule: updateBody_cases)
  case skip
  with assms(2) show ?thesis by simp
next
  case same
  with assms(2) show ?thesis by simp
next
  case fresh
  let ?h1 = "h(b := (h b)\<lparr>body_region := Some (getRegion g (scratch_current g) (h b))\<rparr>)"
  have ids: "\<And>r. body_id (?h1 r) = body_id (h r)" by simp
  from assms(2) have "noSelfPairs ?h1 (map snd (pairs g))" "noSelfPairs ?h1 (pairsList g)"
    by (simp_all add: noSelfPairs_ids [OF ids])
  with cellLoop_noSelf [OF fresh(4)] fresh(5) show ?thesis
    by simp
next
  case (forced oldRegion)
  let ?h1 = "h(b := (h b)\<lparr>body_region := Some (getRegion g (scratch_current g) (h b))\<rparr>)"
  have ids: "\<And>r. body_id (?h1 r) = body_id (h r)" by simp
  from cellLoop_noSelf [OF forced(4)] assms(2) forced(5) show ?thesis
    by (simp add: noSelfPairs_ids [OF ids])
next
  case (moved oldRegion)
  let ?h1 = "h(b := (h b)\<lparr>body_region := Some (getRegion g (scratch_current g) (h b))\<rparr>)"
  have ids: "\<And>r. body_id (?h1 r) = body_id (h r)" by simp
  from cellLoop_noSelf [OF moved(6)] assms(2) moved(7) show ?thesis
    by (simp add: noSelfPairs_ids [OF ids])
qed

lemma grid_update_noSelf:
  assumes "grid_update g h bodies wb f = Inr (g', h')"
    and "noSelfPairs h (map snd (pairs g)) \<and> noSelfPairs h (pairsList g)"
  shows "noSelfPairs h' (map snd (pairs g')) \<and> noSelfPairs h' (pairsList g')"
proof -
  let ?P = "\<lambda>s. case s of (g, h, c) \<Rightarrow>
              noSelfPairs h (map snd (pairs g)) \<and> noSelfPairs h (pairsList g)"
  have step: "\<And>b s s'. ?P s \<Longrightarrow> updateBody wb f b s = Inr s' \<Longrightarrow> ?P s'"
    using updateBody_noSelf by (auto simp del: split_paired_All)
  from assms(1) show ?thesis
  proof (cases rule: grid_update_cases)
    case unchanged
    from updateLoop_invariant [where P = ?P, OF unchanged] assms(2) step show ?thesis
      by simp
  next
    case (changed g1)
    from updateLoop_invariant [where P = ?P, OF changed(1)] assms(2) step
    have "noSelfPairs h' (map snd (pairs g1))"
      by simp
    moreover have "set (map snd (pairs g')) \<subseteq> set (map snd (pairs g1))"
      and "set (pairsList g') \<subseteq> set (map snd (pairs g1))"
      using createActivePairsList_subset(1,2) [OF changed(2)] by auto
    ultimately show ?thesis
      by (blast intro: noSelfPairs_subset)
  qed
qed

lemma reachable_noSelf:
  "reachable g h \<Longrightarrow> noSelfPairs h (map snd (pairs g)) \<and> noSelfPairs h (pairsList g)"
proof (induction rule: reachable.induct)
  case (init h w ht)
  then show ?case by (simp add: grid_create_def noSelfPairs_def)
next
  case (update g h bodies worldBounds forceUpdate g' h')
  from grid_update_noSelf [OF update(2) update(3)] show ?case .
next
  case (clear g h)
  then show ?case by (simp add: grid_clear_def noSelfPairs_def)
next
  case (external g h h')
  then show ?case by (simp add: externalStep_def noSelfPairs_def)
qed

lemma addPairs_same_id:
  "(\<And>x. x \<in> set bkt \<Longrightarrow> body_id (h x) = body_id (h b)) \<Longrightarrow> addPairs h b bkt ps = ps"
  by (induction bkt) auto

text \<open>
  C3: in every reachable state no record of the pair table, and none of the list of active
  pairs, has the same body twice or two bodies with the same identifier. The records are
  made from the bucket as it is before the body is appended: adding a body to a bucket
  that is empty or holds only that body leaves the pair table as it is.
\<close>

theorem reachable_no_self_pair:
  assumes "reachable g h"
  shows "noSelfPairs h (map snd (pairs g)) \<and> noSelfPairs h (pairsList g)
         \<and> bucketAddBody h (pairs g) [] b = (pairs g, [b])
         \<and> bucketAddBody h (pairs g) [b] b = (pairs g, [b, b])"
  using reachable_noSelf [OF assms]
  by (simp add: bucketAddBody_def)

lemma example_update_two:
  "grid_update (grid_create 48 48) heap0 [1, 2] world800 False =
     Inr (\<lparr>buckets = [(0, [1, 2])], freeBuckets = [], pairs = [((1, 2), 2, 1, 1)],
           pairsList = [(2, 1, 1)], bucketWidth = 48, bucketHeight = 48,
           scratch_union = region0, scratch_current = region0\<rparr>,
          heap0(1 := (heap0 1)\<lparr>body_region := Some region0\<rparr>,
                2 := (heap0 2)\<lparr>body_region := Some region0\<rparr>))"
  by (simp add: grid_defs example_defs)

lemma example_reachable_two:
  "reachable
     \<lparr>buckets = [(0, [1, 2])], freeBuckets = [], pairs = [((1, 2), 2, 1, 1)],
      pairsList = [(2, 1, 1)], bucketWidth = 48, bucketHeight = 48,
      scratch_union = region0, scratch_current = region0\<rparr>
     (heap0(1 := (heap0 1)\<lparr>body_region := Some region0\<rparr>,
            2 := (heap0 2)\<lparr>body_region := Some region0\<rparr>))"
  by (rule reachable.update [OF reachable.init example_update_two])
     (simp add: example_defs)

theorem reachable_no_self_pair_witness:
  "reachable
     \<lparr>buckets = [(0, [1, 2])], freeBuckets = [], pairs = [((1, 2), 2, 1, 1)],
      pairsList = [(2, 1, 1)], bucketWidth = 48, bucketHeight = 48,
      scratch_union = region0, scratch_current = region0\<rparr>
     (heap0(1 := (heap0 1)\<lparr>body_region := Some region0\<rparr>,
            2 := (heap0 2)\<lparr>body_region := Some region0\<rparr>))
   \<and> noSelfPairs (heap0(1 := (heap0 1)\<lparr>body_region := Some region0\<rparr>,
                          2 := (heap0 2)\<lparr>body_region := Some region0\<rparr>)) [(2, 1, 1)]"
  using reachable_no_self_pair [OF example_reachable_two] example_reachable_two
  by simp

subsection \<open>What an update leaves alone\<close>

lemma cellStep_frame:
  assumes "cellStep h b f c nr orr cell g = Inr g'"
  shows "bucketWidth g' = bucketWidth g \<and> bucketHeight g' = bucketHeight g
         \<and> scratch_current g' = scratch_current g \<and> scratch_union g' = scratch_union g
         \<and> pairsList g' = pairsList g"
proof -
  have rem: "bucketWidth g1 = bucketWidth g0 \<and> bucketHeight g1 = bucketHeight g0
         \<and> scratch_current g1 = scratch_current g0 \<and> scratch_union g1 = scratch_union g0
         \<and> pairsList g1 = pairsList g0" if "removeFromOld h b k g0 = Inr g1" for g0 g1 k
    using that by (auto simp: removeFromOld_def split: option.splits sum.splits)
  have add: "bucketWidth g1 = bucketWidth g0 \<and> bucketHeight g1 = bucketHeight g0
         \<and> scratch_current g1 = scratch_current g0 \<and> scratch_union g1 = scratch_union g0
         \<and> pairsList g1 = pairsList g0" if "g1 = addToNew h b k g0" for g0 g1 k
    using that
    by (auto simp: addToNew_def createBucket_def bucketAddBody_def Let_def split: option.splits)
  from assms obtain g1 where
    r: "g1 = g \<or> removeFromOld h b (getBucketId (fst cell) (snd cell)) g = Inr g1"
    and a: "g' = g1 \<or> g' = addToNew h b (getBucketId (fst cell) (snd cell)) g1"
    by (auto simp: cellStep_def Let_def split: if_splits sum.splits)
  from r rem have "bucketWidth g1 = bucketWidth g \<and> bucketHeight g1 = bucketHeight g
         \<and> scratch_current g1 = scratch_current g \<and> scratch_union g1 = scratch_union g
         \<and> pairsList g1 = pairsList g"
    by blast
  with a add [of g' _ g1] show ?thesis
    by auto
qed

lemma cellLoop_frame:
  assumes "cellLoop h b f c nr orr cells g = Inr g'"
  shows "bucketWidth g' = bucketWidth g \<and> bucketHeight g' = bucketHeight g
         \<and> scratch_current g' = scratch_current g \<and> scratch_union g' = scratch_union g
         \<and> pairsList g' = pairsList g"
  using cellLoop_invariant
    [where P = "\<lambda>pre g'. bucketWidth g' = bucketWidth g \<and> bucketHeight g' = bucketHeight g
         \<and> scratch_current g' = scratch_current g \<and> scratch_union g' = scratch_union g
         \<and> pairsList g' = pairsList g" and pre = "[]", OF assms]
    cellStep_frame
  by simp

lemma getRegion_cong:
  "bucketWidth g' = bucketWidth g \<Longrightarrow> bucketHeight g' = bucketHeight g
   \<Longrightarrow> bounds b' = bounds b \<Longrightarrow> getRegion g' rg' b' = getRegion g rg b"
  by (cases rg, cases rg') (simp add: getRegion_def)

lemma updateBody_frame:
  assumes "updateBody wb f b (g1, h1, c1) = Inr (g', h', c')" and "stepFrame g h (g1, h1, c1)"
  shows "stepFrame g h (g', h', c')"
proof -
  have nr: "getRegion g1 (scratch_current g1) (h1 b) = getRegion g (scratch_current g) (h b)"
    using assms(2) by (intro getRegion_cong) (simp_all add: stepFrame_def)
  from assms(1) show ?thesis
  proof (cases rule: updateBody_cases)
    case skip
    with assms(2) show ?thesis by simp
  next
    case same
    with assms(2) show ?thesis by (simp add: stepFrame_def)
  next
    case fresh
    from cellLoop_frame [OF fresh(4)] fresh(5) assms(2) nr show ?thesis
      by (simp add: stepFrame_def)
  next
    case (forced oldRegion)
    from cellLoop_frame [OF forced(4)] forced(5) assms(2) nr show ?thesis
      by (simp add: stepFrame_def)
  next
    case (moved oldRegion)
    from cellLoop_frame [OF moved(6)] moved(7) assms(2) nr show ?thesis
      by (simp add: stepFrame_def)
  qed
qed

lemma stepFrame_refl: "stepFrame g h (g, h, c)"
  by (simp add: stepFrame_def)


subsection \<open>Updating twice\<close>






subsection \<open>One cell\<close>

lemma bucketAt_update:
  "buckets g' = AList.update k bkt (buckets g) \<Longrightarrow> bucketAt g' = (bucketAt g)(k := bkt)"
  by (auto simp: bucketAt_def update_conv')

lemma bucketAt_pairs [simp]: "bucketAt (g\<lparr>pairs := ps\<rparr>) = bucketAt g"
  by (auto simp: bucketAt_def)

lemma bucketAt_scratch [simp]:
  "bucketAt (g\<lparr>scratch_current := r\<rparr>) = bucketAt g"
  "bucketAt (g\<lparr>scratch_union := r\<rparr>) = bucketAt g"
  "bucketAt (g\<lparr>pairsList := l\<rparr>) = bucketAt g"
  "bucketAt (g\<lparr>freeBuckets := fb\<rparr>) = bucketAt g"
  by (auto simp: bucketAt_def)

lemma addPairs_distinct:
  "distinct (map fst ps) \<Longrightarrow> distinct (map fst (addPairs h b bkt ps))"
  by (induction bkt arbitrary: ps) (auto simp: distinct_update Let_def split: option.splits)

lemma removePairs_distinct:
  "distinct (map fst ps) \<Longrightarrow> distinct (map fst (removePairs h b bkt ps))"
  by (induction bkt arbitrary: ps) (auto simp: distinct_update Let_def split: option.splits)

text \<open>The three things \<open>cellStep\<close> can do, one equation each.\<close>

lemma cellStep_idle:
  assumes "\<not> (\<not> isInsideRegion (fst cell) (snd cell) nr \<and> isInsideRegion (fst cell) (snd cell) orr)"
    and "\<not> (c \<or> (isInsideRegion (fst cell) (snd cell) nr
               \<and> \<not> isInsideRegion (fst cell) (snd cell) orr) \<or> f)"
  shows "cellStep h b f c nr orr cell g = Inr g"
  using assms by (auto simp: cellStep_def Let_def)

lemma cellStep_remove:
  assumes "\<not> isInsideRegion (fst cell) (snd cell) nr" and "isInsideRegion (fst cell) (snd cell) orr"
    and "\<not> c" and "\<not> f" and "k = getBucketId (fst cell) (snd cell)"
  shows "cellStep h b f c nr orr cell g = removeFromOld h b k g"
  using assms by (auto simp: cellStep_def Let_def split: sum.splits)

lemma cellStep_add:
  assumes "\<not> (\<not> isInsideRegion (fst cell) (snd cell) nr \<and> isInsideRegion (fst cell) (snd cell) orr)"
    and "c \<or> (isInsideRegion (fst cell) (snd cell) nr
               \<and> \<not> isInsideRegion (fst cell) (snd cell) orr) \<or> f"
    and "k = getBucketId (fst cell) (snd cell)"
  shows "cellStep h b f c nr orr cell g = Inr (addToNew h b k g)"
  using assms by (auto simp: cellStep_def Let_def)

lemma addToNew_unfold:
  "addToNew h b k g =
     (case map_of (buckets g) k of
        Some bkt \<Rightarrow>
          g\<lparr>pairs := addPairs h b bkt (pairs g),
            buckets := AList.update k (bkt @ [b]) (buckets g)\<rparr>
      | None \<Rightarrow>
          (if freeBuckets g = [] then
             g\<lparr>pairs := addPairs h b [] (pairs g), buckets := AList.update k [b] (buckets g)\<rparr>
           else
             g\<lparr>freeBuckets := butlast (freeBuckets g),
               pairs := addPairs h b (last (freeBuckets g)) (pairs g),
               buckets := AList.update k (last (freeBuckets g) @ [b]) (buckets g)\<rparr>))"
  by (auto simp: addToNew_def Let_def createBucket_def bucketAddBody_def split: option.splits)

text \<open>With a well-formed grid the bucket that is created is empty.\<close>

lemma addToNew_wf:
  assumes "wfGrid g"
  shows "bucketAt (addToNew h b k g) = (bucketAt g)(k := bucketAt g k @ [b])"
    and "pairs (addToNew h b k g) = addPairs h b (bucketAt g k) (pairs g)"
    and "wfGrid (addToNew h b k g)" and "pairsList (addToNew h b k g) = pairsList g"
proof -
  let ?g' = "addToNew h b k g"
  have "bucketAt ?g' = (bucketAt g)(k := bucketAt g k @ [b])
        \<and> pairs ?g' = addPairs h b (bucketAt g k) (pairs g)
        \<and> wfGrid ?g' \<and> pairsList ?g' = pairsList g"
  proof (cases "map_of (buckets g) k")
    case (Some bkt)
    then have g': "?g' = g\<lparr>pairs := addPairs h b bkt (pairs g),
                           buckets := AList.update k (bkt @ [b]) (buckets g)\<rparr>"
      by (simp add: addToNew_unfold)
    have "bucketAt g k = bkt"
      using Some by (simp add: bucketAt_def)
    moreover have "wfGrid ?g'"
      using assms by (simp add: g' wfGrid_def distinct_update addPairs_distinct)
    moreover have "bucketAt ?g' = (bucketAt g)(k := bkt @ [b])"
      by (rule bucketAt_update) (simp add: g')
    ultimately show ?thesis
      by (simp add: g')
  next
    case None
    then have e: "bucketAt g k = []"
      by (simp add: bucketAt_def)
    have l: "freeBuckets g \<noteq> [] \<Longrightarrow> last (freeBuckets g) = []"
      using assms by (simp add: wfGrid_def)
    have b': "buckets ?g' = AList.update k [b] (buckets g)"
      and p': "pairs ?g' = pairs g" and l': "pairsList ?g' = pairsList g"
      and f': "set (freeBuckets ?g') \<subseteq> set (freeBuckets g)"
      using None l by (auto simp: addToNew_unfold dest: in_set_butlastD)
    have "wfGrid ?g'"
      using assms b' p' f' by (auto simp: wfGrid_def distinct_update)
    moreover have "bucketAt ?g' = (bucketAt g)(k := [b])"
      by (rule bucketAt_update) (simp add: b')
    ultimately show ?thesis
      using e p' l' by simp
  qed
  then show "bucketAt ?g' = (bucketAt g)(k := bucketAt g k @ [b])"
    and "pairs ?g' = addPairs h b (bucketAt g k) (pairs g)"
    and "wfGrid ?g'" and "pairsList ?g' = pairsList g"
    by simp_all
qed

subsection \<open>Removing from a bucket\<close>

lemma indexOf_absent: "x \<notin> set xs \<Longrightarrow> indexOf xs x = -1"
  by (induction xs) auto

lemma indexOf_present:
  "x \<in> set xs \<Longrightarrow> 0 \<le> indexOf xs x \<and> nat (indexOf xs x) < length xs
     \<and> xs ! nat (indexOf xs x) = x"
proof (induction xs)
  case Nil
  then show ?case by simp
next
  case (Cons y ys)
  show ?case
  proof (cases "y = x")
    case True
    then show ?thesis by simp
  next
    case False
    with Cons.prems have "x \<in> set ys" by simp
    from Cons.IH [OF this] False show ?thesis
      by (simp add: Let_def nat_add_distrib)
  qed
qed

lemma mset_swap_remove:
  assumes "i < length xs"
  shows "mset (butlast (xs[i := last xs])) = mset xs - {#xs ! i#}"
proof -
  from assms have "xs \<noteq> []" by auto
  then obtain ys z where xs: "xs = ys @ [z]"
    by (metis append_butlast_last_id)
  show ?thesis
  proof (cases "i < length ys")
    case True
    then have "butlast (xs[i := last xs]) = ys[i := z]"
      by (simp add: xs list_update_append)
    moreover have "mset (ys[i := z]) = add_mset z (mset ys - {#ys ! i#})"
      using True by (simp add: mset_update)
    moreover have "mset xs - {#xs ! i#} = add_mset z (mset ys - {#ys ! i#})"
      using True by (simp add: xs nth_append)
    ultimately show ?thesis by simp
  next
    case False
    with assms have "i = length ys" by (simp add: xs)
    then show ?thesis by (simp add: xs)
  qed
qed

lemma bucketRemoveBody_present:
  assumes "b \<in> set bkt"
  obtains bkt' where "bucketRemoveBody h ps bkt b = Inr (removePairs h b bkt' ps, bkt')"
    and "mset bkt' = mset bkt - {#b#}"
proof -
  let ?i = "nat (indexOf bkt b)"
  let ?bkt' = "butlast (bkt[?i := last bkt])"
  from indexOf_present [OF assms] have i: "0 \<le> indexOf bkt b" "?i < length bkt" "bkt ! ?i = b"
    by simp_all
  then have "bkt[?i := last bkt] \<noteq> []" by auto
  with i have "bucketRemoveBody h ps bkt b = Inr (removePairs h b ?bkt' ps, ?bkt')"
    by (simp add: bucketRemoveBody_def Let_def)
  moreover have "mset ?bkt' = mset bkt - {#b#}"
    using mset_swap_remove [OF i(2)] i(3) by simp
  ultimately show ?thesis
    using that by blast
qed

lemma bucketRemoveBody_absent:
  assumes "b \<notin> set bkt"
  shows "bucketRemoveBody h ps bkt b =
           (if bkt = [] then Inl RangeError
            else Inr (removePairs h b (butlast bkt) ps, butlast bkt))"
  using indexOf_absent [OF assms] by (simp add: bucketRemoveBody_def Let_def)

lemma bucketRemoveBody_Inr:
  assumes "bucketRemoveBody h ps bkt b = Inr (ps', bkt')"
  shows "ps' = removePairs h b bkt' ps" and "mset bkt' \<subseteq># mset bkt"
proof -
  have "ps' = removePairs h b bkt' ps \<and> mset bkt' \<subseteq># mset bkt"
  proof (cases "b \<in> set bkt")
    case True
    from bucketRemoveBody_present [OF True, of h ps] assms show ?thesis
      by (metis Pair_inject diff_subset_eq_self sum.inject(2))
  next
    case False
    with assms bucketRemoveBody_absent [OF False, of h ps] have "bkt \<noteq> []"
      and "ps' = removePairs h b (butlast bkt) ps" and "bkt' = butlast bkt"
      by (auto split: if_splits)
    moreover have "mset (butlast bkt) \<subseteq># mset bkt"
      by (metis append_butlast_last_id calculation(1) mset_subset_eq_add_left union_code
          mset_append)
    ultimately show ?thesis by simp
  qed
  then show "ps' = removePairs h b bkt' ps" and "mset bkt' \<subseteq># mset bkt"
    by simp_all
qed

subsection \<open>Well-formed grids\<close>

lemma removeFromOld_cases:
  assumes "removeFromOld h b k g = Inr g'"
  obtains (nobucket) "map_of (buckets g) k = None" and "g' = g"
  | (removed) bkt bkt' where "map_of (buckets g) k = Some bkt"
      and "bucketRemoveBody h (pairs g) bkt b = Inr (removePairs h b bkt' (pairs g), bkt')"
      and "g' = g\<lparr>pairs := removePairs h b bkt' (pairs g),
                   buckets := AList.update k bkt' (buckets g)\<rparr>"
proof (cases "map_of (buckets g) k")
  case None
  from assms None have "g' = g"
    by (simp add: removeFromOld_def)
  from nobucket [OF None this] show ?thesis .
next
  case (Some bkt)
  show ?thesis
  proof (cases "bucketRemoveBody h (pairs g) bkt b")
    case (Inl e)
    with assms Some show ?thesis
      by (simp add: removeFromOld_def)
  next
    case (Inr res)
    obtain ps bkt' where res: "res = (ps, bkt')"
      by (cases res)
    have r: "bucketRemoveBody h (pairs g) bkt b = Inr (ps, bkt')"
      using Inr by (simp add: res)
    have ps: "ps = removePairs h b bkt' (pairs g)"
      by (rule bucketRemoveBody_Inr(1) [OF r])
    have g': "g' = g\<lparr>pairs := ps, buckets := AList.update k bkt' (buckets g)\<rparr>"
      using assms Some r by (simp add: removeFromOld_def)
    show ?thesis
      by (rule removed [OF Some r [unfolded ps] g' [unfolded ps]])
  qed
qed

lemma removeFromOld_wf:
  assumes "removeFromOld h b k g = Inr g'" and "wfGrid g"
  shows "wfGrid g'"
  using assms(1)
proof (cases rule: removeFromOld_cases)
  case nobucket
  with assms(2) show ?thesis by simp
next
  case (removed bkt bkt')
  with assms(2) show ?thesis
    by (simp add: wfGrid_def distinct_update removePairs_distinct)
qed






lemma createActivePairsList_wf:
  assumes "wfGrid g"
  obtains g' where "createActivePairsList g = Inr g'" and "wfGrid g'"
    and "pairs g' = filter (\<lambda>(k, pa, pb, n). n > 0) (pairs g)"
    and "pairsList g' = map snd (pairs g')" and "bucketAt g' = bucketAt g"
    and "buckets g' = buckets g"
proof -
  let ?g' = "g\<lparr>pairs := filter (\<lambda>(k, pa, pb, n). n > 0) (pairs g),
               pairsList := map snd (filter (\<lambda>(k, pa, pb, n). n > 0) (pairs g))\<rparr>"
  from assms have d: "distinct (map fst (pairs g))"
    by (simp add: wfGrid_def)
  have "createActivePairsList g = Inr ?g'"
    using activePairsLoop_filter [of "[]" "pairs g" "[]"] d
    by (simp add: createActivePairsList_def keys_def)
  moreover have "wfGrid ?g'"
    using assms by (simp add: wfGrid_def distinct_map_filter)
  ultimately show ?thesis
    using that [of ?g'] by (simp add: bucketAt_def)
qed


lemma grid_clear_wf: "wfGrid g \<Longrightarrow> wfGrid (grid_clear g)"
  by (auto simp: wfGrid_def grid_clear_def clearLoop_buckets clearLoop_freeBuckets)


subsection \<open>Registering a body\<close>

lemma set_regionCells:
  "set (regionCells r) = {cell. isInsideRegion (fst cell) (snd cell) r}"
  by (auto simp: regionCells_def isInsideRegion_def)

lemma distinct_regionCells: "distinct (regionCells r)"
  by (simp add: regionCells_def distinct_product)







subsection \<open>Counting pairs\<close>




lemma removePairs_unfold:
  "removePairs h b (y # rest) ps =
     removePairs h b rest
       (case map_of ps (pair_id (h b) (h y)) of
          Some (pa, pb, n) \<Rightarrow> AList.update (pair_id (h b) (h y)) (pa, pb, n - 1) ps
        | None \<Rightarrow> ps)"
  by (auto simp: Let_def split: option.splits)

lemma removePairs_dom:
  "map_of (removePairs h b bkt ps) key = None \<longleftrightarrow> map_of ps key = None"
proof (induction bkt arbitrary: ps)
  case Nil
  then show ?case by simp
next
  case (Cons y rest)
  show ?case
    by (cases "map_of ps (pair_id (h b) (h y))")
       (auto simp: Cons.IH update_conv' removePairs_unfold simp del: removePairs.simps
             split: if_splits)
qed


subsection \<open>Shared cells\<close>





lemma pair_id_sym: "pair_id x y = pair_id y x"
  by (auto simp: pair_id_def)





subsection \<open>Adding and removing keeps the counts right\<close>


lemma swap_removed_bucket:
  assumes "distinct bkt" and "mset bkt' = mset bkt - {#b#}"
  shows "distinct bkt'" and "set bkt' = set bkt - {b}"
proof -
  have m: "mset bkt' = mset (remove1 b bkt)"
    using assms(2) by simp
  from mset_eq_imp_distinct_iff [OF m] assms(1) show "distinct bkt'"
    by simp
  from mset_eq_setD [OF m] assms(1) show "set bkt' = set bkt - {b}"
    by simp
qed




subsection \<open>The loop over the cells\<close>

lemma cellLoop_invariant_split:
  assumes "cellLoop h b f c nr orr suffix g = Inr g'" and "cells = pre @ suffix" and "P pre g"
    and "\<And>pre cell rest gi gi'. cells = pre @ cell # rest \<Longrightarrow> P pre gi
          \<Longrightarrow> cellStep h b f c nr orr cell gi = Inr gi' \<Longrightarrow> P (pre @ [cell]) gi'"
  shows "P cells g'"
  using assms(1-3)
proof (induction suffix arbitrary: g pre)
  case Nil
  then show ?case by simp
next
  case (Cons cell rest)
  from Cons.prems(1) obtain g1 where s: "cellStep h b f c nr orr cell g = Inr g1"
    and l: "cellLoop h b f c nr orr rest g1 = Inr g'"
    by (auto split: sum.splits)
  have "P (pre @ [cell]) g1"
    by (rule assms(4) [OF Cons.prems(2,3) s])
  moreover have "cells = (pre @ [cell]) @ rest"
    using Cons.prems(2) by simp
  ultimately show ?case
    using Cons.IH [OF l] by blast
qed




subsection \<open>Regions and their cells\<close>

lemma inside_union:
  "isInsideRegion col row a \<or> isInsideRegion col row b
   \<Longrightarrow> isInsideRegion col row (regionUnion u a b)"
  by (auto simp: isInsideRegion_def regionUnion_def)

lemma safeRegion_union: "safeRegion a \<Longrightarrow> safeRegion b \<Longrightarrow> safeRegion (regionUnion u a b)"
  by (auto simp: safeRegion_def regionUnion_def min_def max_def)

lemma regionIds_iff:
  "k \<in> regionIds rg \<longleftrightarrow> (\<exists>cell. isInsideRegion (fst cell) (snd cell) rg \<and> cellId cell = k)"
  unfolding regionIds_def set_regionCells by blast

lemma cellId_inj_safe:
  assumes "safeRegion rg"
  shows "inj_on cellId (set (regionCells rg))"
proof (rule inj_onI)
  fix x y
  assume x: "x \<in> set (regionCells rg)" and y: "y \<in> set (regionCells rg)"
    and e: "cellId x = cellId y"
  have b: "\<bar>fst z\<bar> \<le> 9007198 \<and> \<bar>snd z\<bar> < 500000000" if "z \<in> set (regionCells rg)" for z
    using that assms by (auto simp: set_regionCells isInsideRegion_def safeRegion_def)
  have "cellId z = fst z * 1000000000 + snd z" if "z \<in> set (regionCells rg)" for z
    using b [OF that] unfolding cellId_def by (intro getBucketId_exact) auto
  with e x y have "fst x * 1000000000 + snd x = fst y * 1000000000 + snd y"
    by simp
  moreover have "\<bar>snd x - snd y\<bar> < 1000000000"
    using b [OF x] b [OF y] by auto
  ultimately have "fst x = fst y \<and> snd x = snd y"
    by (rule stride_inj)
  then show "x = y"
    by (simp add: prod_eq_iff)
qed

subsection \<open>One body, tracked\<close>








subsection \<open>An update, tracked\<close>








subsection \<open>Pair counts in tracked states\<close>



subsection \<open>Three shared cells, then two, then none\<close>




text \<open>
  Body 1 leaves the cell (0, 0): the count is 2 and the pair is still in the list. Then
  it leaves the other two cells as well: the entry is deleted and the list is empty.
\<close>

lemma example_leave_one:
  "grid_update gridWide (moveTo heapWide1 1 48 0 130 10) [1, 2] world800 False =
     Inr (gridWide\<lparr>buckets := [(0, [2]), (1000000000, [1, 2]), (2000000000, [1, 2])],
                   pairs := [((1, 2), 2, 1, 2)], pairsList := [(2, 1, 2)]\<rparr>,
          (moveTo heapWide1 1 48 0 130 10)
            (1 := (moveTo heapWide1 1 48 0 130 10 1)
               \<lparr>body_region := Some \<lparr>startCol = 1, endCol = 2, startRow = 0, endRow = 0\<rparr>\<rparr>))"
  by (simp add: grid_defs example_defs state_defs upto.simps)

lemma example_leave_all:
  "grid_update
     (gridWide\<lparr>buckets := [(0, [2]), (1000000000, [1, 2]), (2000000000, [1, 2])],
               pairs := [((1, 2), 2, 1, 2)], pairsList := [(2, 1, 2)]\<rparr>)
     (moveTo ((moveTo heapWide1 1 48 0 130 10)
            (1 := (moveTo heapWide1 1 48 0 130 10 1)
               \<lparr>body_region := Some \<lparr>startCol = 1, endCol = 2, startRow = 0, endRow = 0\<rparr>\<rparr>))
        1 48 60 130 70)
     [1] world800 False =
     Inr (gridWide\<lparr>buckets := [(0, [2]), (1000000000, [2]), (2000000000, [2]),
                                (1000000001, [1]), (2000000001, [1])],
                   pairs := [], pairsList := [],
                   scratch_union := \<lparr>startCol = 1, endCol = 2, startRow = 0, endRow = 1\<rparr>,
                   scratch_current := \<lparr>startCol = 1, endCol = 2, startRow = 1, endRow = 1\<rparr>\<rparr>,
          (moveTo heapWide1 1 48 60 130 70)
            (1 := (moveTo heapWide1 1 48 60 130 70 1)
               \<lparr>body_region := Some \<lparr>startCol = 1, endCol = 2, startRow = 1, endRow = 1\<rparr>\<rparr>))"
  by (simp add: grid_defs example_defs state_defs upto.simps)


lemma example_two_reachable: "reachable gridTwo heapTwo"
  using example_reachable_two by (simp add: state_defs)


subsection \<open>Bodies out of the world\<close>











subsection \<open>One reference to a body in a bucket\<close>

lemma distinct_submset:
  assumes "mset ys \<subseteq># mset xs" and "distinct xs"
  shows "distinct ys"
proof -
  have "count (mset ys) a = (if a \<in> set ys then 1 else 0)" for a
  proof (cases "a \<in> set ys")
    case True
    have "count (mset ys) a \<le> count (mset xs) a"
      using assms(1) by (rule mset_subset_eq_count)
    moreover have "count (mset xs) a \<le> 1"
      using assms(2) by (simp add: distinct_count_atmost_1)
    moreover have "1 \<le> count (mset ys) a"
      using True count_greater_eq_one_iff [of "mset ys" a] by simp
    ultimately have "count (mset ys) a = 1"
      by linarith
    with True show ?thesis
      by simp
  next
    case False
    then show ?thesis
      by (simp add: count_eq_zero_iff)
  qed
  then show ?thesis
    by (simp add: distinct_count_atmost_1)
qed

lemma bucketRemoveBody_distinct:
  assumes r: "bucketRemoveBody h ps bkt b = Inr (ps', bkt')" and d: "distinct bkt"
  shows "distinct bkt'" and "set bkt' \<subseteq> set bkt" and "b \<notin> set bkt'"
proof -
  from bucketRemoveBody_Inr(2) [OF r] have sub: "mset bkt' \<subseteq># mset bkt" .
  from distinct_submset [OF sub d] show "distinct bkt'" .
  from set_mset_mono [OF sub] show ss: "set bkt' \<subseteq> set bkt"
    by simp
  show "b \<notin> set bkt'"
  proof (cases "b \<in> set bkt")
    case True
    from bucketRemoveBody_present [OF True, of h ps] r
    have "mset bkt' = mset bkt - {#b#}"
      by (metis Pair_inject sum.inject(2))
    from swap_removed_bucket(2) [OF d this] show ?thesis
      by simp
  next
    case False
    with ss show ?thesis
      by blast
  qed
qed

lemma removeFromOld_placed:
  assumes r: "removeFromOld h b k g = Inr g'" and d: "distinct (bucketAt g k)"
  obtains bkt' where "bucketAt g' = (bucketAt g)(k := bkt')" and "distinct bkt'"
    and "set bkt' \<subseteq> set (bucketAt g k)" and "b \<notin> set bkt'"
  using r
proof (cases rule: removeFromOld_cases)
  case nobucket
  then have e: "bucketAt g k = []"
    by (simp add: bucketAt_def)
  have "bucketAt g' = (bucketAt g)(k := [])"
    using e nobucket(2) by (simp add: fun_eq_iff)
  from that [OF this] e show ?thesis
    by simp
next
  case (removed bkt bkt')
  have at: "bucketAt g k = bkt"
    using removed(1) by (simp add: bucketAt_def)
  have B': "bucketAt g' = (bucketAt g)(k := bkt')"
    by (rule bucketAt_update) (simp add: removed(3))
  from d at have "distinct bkt"
    by simp
  from bucketRemoveBody_distinct [OF removed(2) this] that [OF B'] at show ?thesis
    by simp
qed

lemma placedCells_step:
  assumes cin: "cell \<in> set cells" and cpre: "cell \<notin> set pre"
    and inj: "inj_on cellId (set cells)"
    and rem: "was cell \<Longrightarrow> \<not> want cell
      \<Longrightarrow> cellStep h b f c nr orr cell gi = removeFromOld h b (cellId cell) gi"
    and add: "\<not> was cell \<Longrightarrow> want cell
      \<Longrightarrow> cellStep h b f c nr orr cell gi = Inr (addToNew h b (cellId cell) gi)"
    and idle: "was cell = want cell \<Longrightarrow> cellStep h b f c nr orr cell gi = Inr gi"
    and inv: "placedCells b g0 cells was want pre gi"
    and step: "cellStep h b f c nr orr cell gi = Inr gi'"
  shows "placedCells b g0 cells was want (pre @ [cell]) gi'"
proof -
  let ?k = "cellId cell"
  let ?E = "\<lambda>pre k. \<exists>cell' \<in> set cells. cellId cell' = k
              \<and> (if cell' \<in> set pre then want cell' else was cell')"
  have only: "cell' = cell" if "cell' \<in> set cells" and "cellId cell' = ?k" for cell'
    using inj that cin by (auto dest: inj_onD)
  have other: "?E (pre @ [cell]) k = ?E pre k" if "k \<noteq> ?k" for k
    using that by auto
  have here_new: "?E (pre @ [cell]) ?k = want cell"
    using only cin by auto
  have here_old: "?E pre ?k = was cell"
    using only cin cpre by auto
  from inv have wf: "wfGrid gi" and dist: "\<And>k. distinct (bucketAt gi k)"
    and mem: "\<And>k. b \<in> set (bucketAt gi k) \<Longrightarrow> ?E pre k"
    and oth: "\<And>k. set (bucketAt gi k) - {b} \<subseteq> set (bucketAt g0 k)"
    by (simp_all add: placedCells_def)
  have goal: "placedCells b g0 cells was want (pre @ [cell]) gi'"
    if wf': "wfGrid gi'" and B': "bucketAt gi' = (bucketAt gi)(?k := bkt')"
      and d': "distinct bkt'" and s': "set bkt' - {b} \<subseteq> set (bucketAt gi ?k)"
      and b': "b \<in> set bkt' \<Longrightarrow> want cell"
    for bkt'
  proof -
    have m': "?E (pre @ [cell]) k" if "b \<in> set (bucketAt gi' k)" for k
    proof (cases "k = ?k")
      case True
      from that True have "b \<in> set bkt'"
        by (simp add: B')
      from b' [OF this] here_new True show ?thesis
        by simp
    next
      case False
      from that False have "b \<in> set (bucketAt gi k)"
        by (simp add: B')
      from mem [OF this] other [OF False] show ?thesis
        by simp
    qed
    have d2: "distinct (bucketAt gi' k)" for k
      using dist [of k] d' by (simp add: B')
    have o2: "set (bucketAt gi' k) - {b} \<subseteq> set (bucketAt g0 k)" for k
      using oth [of k] oth [of ?k] s' by (auto simp: B')
    show ?thesis
      unfolding placedCells_def
    proof (intro conjI allI impI)
      show "wfGrid gi'" by (rule wf')
      show "distinct (bucketAt gi' k)" for k by (rule d2)
      show "?E (pre @ [cell]) k" if "b \<in> set (bucketAt gi' k)" for k
        using that by (rule m')
      show "set (bucketAt gi' k) - {b} \<subseteq> set (bucketAt g0 k)" for k by (rule o2)
    qed
  qed
  show ?thesis
  proof (cases "was cell = want cell")
    case True
    from idle [OF True] step have e: "gi = gi'" by simp
    show ?thesis
    proof (rule goal [of "bucketAt gi ?k"])
      show "wfGrid gi'" using wf by (simp only: e)
      show "bucketAt gi' = (bucketAt gi)(?k := bucketAt gi ?k)"
        unfolding e [symmetric] by simp
      show "distinct (bucketAt gi ?k)" by (rule dist)
      show "set (bucketAt gi ?k) - {b} \<subseteq> set (bucketAt gi ?k)" by blast
      show "want cell" if "b \<in> set (bucketAt gi ?k)"
        using mem [OF that] here_old True by simp
    qed
  next
    case False
    show ?thesis
    proof (cases "was cell")
      case True
      with False have nw: "\<not> want cell" by simp
      from rem [OF True nw] step have r: "removeFromOld h b ?k gi = Inr gi'"
        by simp
      from removeFromOld_placed [OF r dist [of ?k]] obtain bkt'
        where B': "bucketAt gi' = (bucketAt gi)(?k := bkt')" and d': "distinct bkt'"
          and s': "set bkt' \<subseteq> set (bucketAt gi ?k)" and nb': "b \<notin> set bkt'"
        by blast
      show ?thesis
      proof (rule goal [OF removeFromOld_wf [OF r wf] B' d'])
        show "set bkt' - {b} \<subseteq> set (bucketAt gi ?k)"
          using s' by blast
        show "want cell" if "b \<in> set bkt'"
          using that nb' by simp
      qed
    next
      case nwas: False
      with False have w: "want cell" by simp
      have nb: "b \<notin> set (bucketAt gi ?k)"
        using mem [of ?k] here_old nwas by blast
      from add [OF nwas w] step have e: "gi' = addToNew h b ?k gi"
        by simp
      note a = addToNew_wf [OF wf, of h b ?k]
      show ?thesis
      proof (rule goal [of "bucketAt gi ?k @ [b]"])
        show "wfGrid gi'" by (simp add: e a(3))
        show "bucketAt gi' = (bucketAt gi)(?k := bucketAt gi ?k @ [b])"
          by (simp add: e a(1))
        show "distinct (bucketAt gi ?k @ [b])"
          using dist [of ?k] nb by simp
        show "set (bucketAt gi ?k @ [b]) - {b} \<subseteq> set (bucketAt gi ?k)"
          by auto
        show "want cell" if "b \<in> set (bucketAt gi ?k @ [b])"
          by (rule w)
      qed
    qed
  qed
qed

lemma cellLoop_placed:
  assumes loop: "cellLoop h b f c nr orr cells g = Inr g'"
    and dc: "distinct cells" and inj: "inj_on cellId (set cells)"
    and rem: "\<And>cell gi. cell \<in> set cells \<Longrightarrow> was cell \<Longrightarrow> \<not> want cell
      \<Longrightarrow> cellStep h b f c nr orr cell gi = removeFromOld h b (cellId cell) gi"
    and add: "\<And>cell gi. cell \<in> set cells \<Longrightarrow> \<not> was cell \<Longrightarrow> want cell
      \<Longrightarrow> cellStep h b f c nr orr cell gi = Inr (addToNew h b (cellId cell) gi)"
    and idle: "\<And>cell gi. cell \<in> set cells \<Longrightarrow> was cell = want cell
      \<Longrightarrow> cellStep h b f c nr orr cell gi = Inr gi"
    and init: "placedCells b g cells was want [] g"
  shows "placedCells b g cells was want cells g'"
proof (rule cellLoop_invariant_split
    [where P = "placedCells b g cells was want" and pre = "[]", OF loop _ init])
  show "cells = [] @ cells" by simp
next
  fix pre cell rest gi gi'
  assume split: "cells = pre @ cell # rest"
    and inv: "placedCells b g cells was want pre gi"
    and step: "cellStep h b f c nr orr cell gi = Inr gi'"
  from split dc have cin: "cell \<in> set cells" and cpre: "cell \<notin> set pre"
    by auto
  show "placedCells b g cells was want (pre @ [cell]) gi'"
    by (rule placedCells_step [OF cin cpre inj rem [OF cin] add [OF cin] idle [OF cin]
          inv step])
qed

lemma placedCells_init:
  assumes p: "placed h g" and g0: "bucketAt g0 = bucketAt g" "wfGrid g0"
    and mem: "\<And>k. b \<in> set (bucketAt g k) \<Longrightarrow> \<exists>cell \<in> set cells. cellId cell = k \<and> was cell"
  shows "placedCells b g0 cells was want [] g0"
proof -
  from p have "\<And>k. distinct (bucketAt g k)"
    by (simp add: placed_def)
  with g0 mem show ?thesis
    by (simp add: placedCells_def)
qed

lemma placed_after_loop:
  assumes p: "placed h g"
    and fin: "placedCells b g0 cells was want cells g'"
    and g0: "bucketAt g0 = bucketAt g"
    and mem: "\<And>k. \<exists>cell \<in> set cells. cellId cell = k \<and> want cell \<Longrightarrow> k \<in> regionIds nr"
    and safe: "safeRegion nr"
    and h': "h' = h(b := (h b)\<lparr>body_region := Some nr\<rparr>)"
  shows "placed h' g' \<and> (\<forall>k. set (bucketAt g' k) - {b} \<subseteq> set (bucketAt g k))"
proof -
  from fin have wf: "wfGrid g'" and dist: "\<And>k. distinct (bucketAt g' k)"
    and bm: "\<And>k. b \<in> set (bucketAt g' k) \<Longrightarrow> \<exists>cell \<in> set cells. cellId cell = k \<and> want cell"
    and oth: "\<And>k. set (bucketAt g' k) - {b} \<subseteq> set (bucketAt g0 k)"
    by (simp_all add: placedCells_def)
  from p have tm: "\<And>x k. x \<in> set (bucketAt g k) \<Longrightarrow>
                (\<exists>rg. body_region (h x) = Some rg \<and> k \<in> regionIds rg)"
    and ts: "\<And>x rg. body_region (h x) = Some rg \<Longrightarrow> safeRegion rg"
    by (simp_all add: placed_def)
  have m': "\<exists>rg. body_region (h' x) = Some rg \<and> k \<in> regionIds rg"
    if x: "x \<in> set (bucketAt g' k)" for x k
  proof (cases "x = b")
    case True
    with x have "b \<in> set (bucketAt g' k)"
      by simp
    from mem [OF bm [OF this]] True show ?thesis
      by (simp add: h')
  next
    case False
    with x oth [of k] have "x \<in> set (bucketAt g k)"
      by (auto simp: g0)
    from tm [OF this] False show ?thesis
      by (simp add: h')
  qed
  have s': "safeRegion rg" if "body_region (h' x) = Some rg" for x rg
    using that ts [of x rg] safe by (cases "x = b") (simp_all add: h')
  have "placed h' g'"
    unfolding placed_def
  proof (intro conjI allI impI)
    show "wfGrid g'" by (rule wf)
    show "distinct (bucketAt g' k)" for k by (rule dist)
    show "\<exists>rg. body_region (h' x) = Some rg \<and> k \<in> regionIds rg"
      if "x \<in> set (bucketAt g' k)" for x k
      using that by (rule m')
    show "safeRegion rg" if "body_region (h' x) = Some rg" for x rg
      using that by (rule s')
  qed
  moreover have "set (bucketAt g' k) - {b} \<subseteq> set (bucketAt g k)" for k
    using oth [of k] by (simp add: g0)
  ultimately show ?thesis
    by simp
qed

text \<open>
  The body is in no bucket and every cell of the loop is a cell of the new region: the
  first registration of a body, and the forced update of a body on a grid without it.
\<close>

lemma added_placed:
  assumes p: "placed h g" and out: "\<And>k. b \<notin> set (bucketAt g k)" and safe: "safeRegion nr"
    and loop: "cellLoop h1 b f c nr orr (regionCells nr) g0 = Inr g'"
    and cf: "c \<or> f" and g0: "bucketAt g0 = bucketAt g" "wfGrid g0"
  shows "placed (h(b := (h b)\<lparr>body_region := Some nr\<rparr>)) g'
         \<and> (\<forall>k. set (bucketAt g' k) - {b} \<subseteq> set (bucketAt g k))"
proof -
  let ?cells = "regionCells nr"
  have init: "placedCells b g0 ?cells (\<lambda>_. False) (\<lambda>_. True) [] g0"
    by (rule placedCells_init [OF p g0]) (simp add: out)
  have add: "cellStep h1 b f c nr orr cell gi = Inr (addToNew h1 b (cellId cell) gi)"
    if "cell \<in> set ?cells" for cell gi
    using that cf by (intro cellStep_add) (auto simp: cellId_def set_regionCells)
  have fin: "placedCells b g0 ?cells (\<lambda>_. False) (\<lambda>_. True) ?cells g'"
    by (rule cellLoop_placed [OF loop distinct_regionCells cellId_inj_safe [OF safe] _ add _ init])
       simp_all
  have mem: "k \<in> regionIds nr" if "\<exists>cell \<in> set ?cells. cellId cell = k \<and> True" for k
    using that by (auto simp: regionIds_def)
  show ?thesis
    by (rule placed_after_loop [OF p fin g0(1) mem safe refl])
qed

lemma moved_placed:
  assumes p: "placed h g" and old: "body_region (h b) = Some oldr" and safe: "safeRegion nr"
    and loop: "cellLoop h b False False nr oldr (regionCells (regionUnion u nr oldr)) g0 = Inr g'"
    and g0: "bucketAt g0 = bucketAt g" "wfGrid g0"
  shows "placed (h(b := (h b)\<lparr>body_region := Some nr\<rparr>)) g'
         \<and> (\<forall>k. set (bucketAt g' k) - {b} \<subseteq> set (bucketAt g k))"
proof -
  let ?un = "regionUnion u nr oldr"
  let ?cells = "regionCells ?un"
  let ?was = "\<lambda>cell. isInsideRegion (fst cell) (snd cell) oldr"
  let ?want = "\<lambda>cell. isInsideRegion (fst cell) (snd cell) nr"
  from p have tm: "\<And>x k. x \<in> set (bucketAt g k) \<Longrightarrow>
                (\<exists>rg. body_region (h x) = Some rg \<and> k \<in> regionIds rg)"
    and ts: "\<And>x rg. body_region (h x) = Some rg \<Longrightarrow> safeRegion rg"
    by (simp_all add: placed_def)
  have sun: "safeRegion ?un"
    by (rule safeRegion_union [OF safe ts [OF old]])
  have cover: "cell \<in> set ?cells"
    if "isInsideRegion (fst cell) (snd cell) nr \<or> isInsideRegion (fst cell) (snd cell) oldr" for cell
    using inside_union [OF that, of u] by (simp add: set_regionCells)
  have wasmem: "\<exists>cell \<in> set ?cells. cellId cell = k \<and> ?was cell" if "b \<in> set (bucketAt g k)" for k
  proof -
    from tm [OF that] old have "k \<in> regionIds oldr"
      by simp
    then have "\<exists>cell. ?was cell \<and> cellId cell = k"
      by (simp add: regionIds_iff)
    with cover show ?thesis
      by blast
  qed
  have init: "placedCells b g0 ?cells ?was ?want [] g0"
    by (rule placedCells_init [OF p g0 wasmem])
  have rem: "cellStep h b False False nr oldr cell gi = removeFromOld h b (cellId cell) gi"
    if "?was cell" and "\<not> ?want cell" for cell gi
    using that by (intro cellStep_remove) (simp_all add: cellId_def)
  have add: "cellStep h b False False nr oldr cell gi = Inr (addToNew h b (cellId cell) gi)"
    if "\<not> ?was cell" and "?want cell" for cell gi
    using that by (intro cellStep_add) (simp_all add: cellId_def)
  have idle: "cellStep h b False False nr oldr cell gi = Inr gi"
    if "?was cell = ?want cell" for cell gi
    using that by (intro cellStep_idle) simp_all
  have fin: "placedCells b g0 ?cells ?was ?want ?cells g'"
    by (rule cellLoop_placed [OF loop distinct_regionCells cellId_inj_safe [OF sun]
          rem add idle init])
  have mem: "k \<in> regionIds nr" if "\<exists>cell \<in> set ?cells. cellId cell = k \<and> ?want cell" for k
    using that regionIds_iff [of k nr] by blast
  show ?thesis
    by (rule placed_after_loop [OF p fin g0(1) mem safe refl])
qed

lemma placed_cong:
  assumes "bucketAt g' = bucketAt g" and "wfGrid g' = wfGrid g"
  shows "placed h g' = placed h g"
  by (simp add: placed_def assms)

text \<open>
  One body of an update. When the update is forced the body must be in no bucket: that is
  the case for every body of a list without repetition on a grid that was just cleared.
\<close>

lemma updateBody_placed:
  assumes s: "updateBody wb f b (g, h, c) = Inr (g', h', c')" and p: "placed h g"
    and safe: "safeRegion (getRegion g (scratch_current g) (h b))"
    and out: "f \<Longrightarrow> (\<And>k. b \<notin> set (bucketAt g k))"
  shows "placed h' g' \<and> (\<forall>k. set (bucketAt g' k) - {b} \<subseteq> set (bucketAt g k))"
  using s
proof (cases rule: updateBody_cases)
  case skip
  with p show ?thesis by auto
next
  case same
  have "placed h (g\<lparr>scratch_current := getRegion g (scratch_current g) (h b)\<rparr>) = placed h g"
    by (rule placed_cong) (simp_all add: wfGrid_def)
  with p same show ?thesis by auto
next
  case fresh
  let ?nr = "getRegion g (scratch_current g) (h b)"
  from p have wf: "wfGrid g" and tm: "\<And>k. b \<in> set (bucketAt g k) \<Longrightarrow>
                (\<exists>rg. body_region (h b) = Some rg \<and> k \<in> regionIds rg)"
    by (simp_all add: placed_def)
  have nowhere: "b \<notin> set (bucketAt g k)" for k
    using tm [of k] fresh(3) by auto
  have "placed (h(b := (h b)\<lparr>body_region := Some ?nr\<rparr>)) g'
        \<and> (\<forall>k. set (bucketAt g' k) - {b} \<subseteq> set (bucketAt g k))"
    using wf by (intro added_placed [OF p nowhere safe fresh(4)]) (simp_all add: wfGrid_def)
  with fresh(5) show ?thesis by simp
next
  case (forced oldRegion)
  let ?nr = "getRegion g (scratch_current g) (h b)"
  from p have wf: "wfGrid g"
    by (simp add: placed_def)
  have "placed (h(b := (h b)\<lparr>body_region := Some ?nr\<rparr>)) g'
        \<and> (\<forall>k. set (bucketAt g' k) - {b} \<subseteq> set (bucketAt g k))"
    using wf by (intro added_placed [OF p out [OF forced(1)] safe forced(4)])
      (simp_all add: wfGrid_def)
  with forced(5) show ?thesis by simp
next
  case (moved oldRegion)
  let ?nr = "getRegion g (scratch_current g) (h b)"
  from p have wf: "wfGrid g"
    by (simp add: placed_def)
  have "placed (h(b := (h b)\<lparr>body_region := Some ?nr\<rparr>)) g'
        \<and> (\<forall>k. set (bucketAt g' k) - {b} \<subseteq> set (bucketAt g k))"
    using wf by (intro moved_placed [OF p moved(4) safe moved(6)]) (simp_all add: wfGrid_def)
  with moved(7) show ?thesis by simp
qed

lemma updateLoop_placed:
  assumes l: "updateLoop wb f bodies (g, h, c) = Inr (g', h', c')" and p: "placed h g"
    and safe: "\<And>b. b \<in> set bodies \<Longrightarrow> safeRegion (getRegion g (scratch_current g) (h b))"
    and out: "f \<Longrightarrow> distinct bodies \<and> (\<forall>b \<in> set bodies. \<forall>k. b \<notin> set (bucketAt g k))"
  shows "placed h' g'"
  using l p safe out
proof (induction bodies arbitrary: g h c)
  case Nil
  then show ?case by simp
next
  case (Cons b bodies)
  from Cons.prems(1) obtain s1 where u: "updateBody wb f b (g, h, c) = Inr s1"
    and l1: "updateLoop wb f bodies s1 = Inr (g', h', c')"
    by (auto split: sum.splits)
  obtain g1 h1 c1 where s1: "s1 = (g1, h1, c1)" by (cases s1)
  have sb: "safeRegion (getRegion g (scratch_current g) (h b))"
    by (rule Cons.prems(3)) simp
  have ob: "b \<notin> set (bucketAt g k)" if "f" for k
    using Cons.prems(4) [OF that] by simp
  from updateBody_placed [OF u [unfolded s1] Cons.prems(2) sb ob]
  have p1: "placed h1 g1" and sub: "\<And>k. set (bucketAt g1 k) - {b} \<subseteq> set (bucketAt g k)"
    by simp_all
  from updateBody_frame [OF u [unfolded s1] stepFrame_refl]
  have fr: "stepFrame g h (g1, h1, c1)" .
  have safe1: "safeRegion (getRegion g1 (scratch_current g1) (h1 x))" if "x \<in> set bodies" for x
  proof -
    have "getRegion g1 (scratch_current g1) (h1 x) = getRegion g (scratch_current g) (h x)"
      using fr by (intro getRegion_cong) (simp_all add: stepFrame_def)
    with Cons.prems(3) [of x] that show ?thesis
      by simp
  qed
  have out1: "distinct bodies \<and> (\<forall>x \<in> set bodies. \<forall>k. x \<notin> set (bucketAt g1 k))" if "f"
  proof -
    from Cons.prems(4) [OF that] have d: "distinct bodies" and nb: "b \<notin> set bodies"
      and no: "\<And>x k. x \<in> set bodies \<Longrightarrow> x \<notin> set (bucketAt g k)"
      by simp_all
    have "x \<notin> set (bucketAt g1 k)" if "x \<in> set bodies" for x k
      using sub [of k] no [OF that, of k] nb that by auto
    with d show ?thesis
      by simp
  qed
  show ?case
    by (rule Cons.IH [OF l1 [unfolded s1] p1 safe1 out1])
qed

lemma grid_update_placed:
  assumes up: "grid_update g h bodies wb f = Inr (g', h')" and p: "placed h g"
    and safe: "\<And>b. b \<in> set bodies \<Longrightarrow> safeRegion (getRegion g (scratch_current g) (h b))"
    and out: "f \<Longrightarrow> distinct bodies \<and> (\<forall>b \<in> set bodies. \<forall>k. b \<notin> set (bucketAt g k))"
  shows "placed h' g'"
  using up
proof (cases rule: grid_update_cases)
  case unchanged
  show ?thesis
    by (rule updateLoop_placed [OF unchanged p safe out])
next
  case (changed g1)
  have p1: "placed h' g1"
    by (rule updateLoop_placed [OF changed(1) p safe out])
  then have wf1: "wfGrid g1"
    by (simp add: placed_def)
  from createActivePairsList_wf [OF wf1] changed(2) have "wfGrid g'"
    and "bucketAt g' = bucketAt g1"
    by (metis sum.inject(2))+
  with p1 show ?thesis
    by (simp add: placed_def)
qed

lemma grid_clear_placed:
  assumes "placed h g"
  shows "placed h (grid_clear g)" and "bucketAt (grid_clear g) k = []"
proof -
  have b: "buckets (grid_clear g) = []"
    by (simp add: grid_clear_def clearLoop_buckets filter_empty_conv)
  then show e: "bucketAt (grid_clear g) k = []" for k
    by (simp add: bucketAt_def)
  from assms have "wfGrid (grid_clear g)"
    by (simp add: placed_def grid_clear_wf)
  with assms show "placed h (grid_clear g)"
    by (simp add: placed_def e)
qed

lemma reachableRegular_placed: "reachableRegular g h \<Longrightarrow> placed h g"
proof (induction rule: reachableRegular.induct)
  case (init h w ht)
  have "bucketAt (grid_create w ht) = (\<lambda>k. [])"
    by (simp add: bucketAt_def grid_create_def fun_eq_iff)
  with init show ?case
    by (simp add: placed_def wfGrid_def grid_create_def)
next
  case (update g h bodies worldBounds g' h')
  show ?case
    by (rule grid_update_placed [OF update(3) update(4) update(2)]) simp_all
next
  case (clear g h)
  then show ?case
    by (simp add: grid_clear_placed)
next
  case (refill g h bodies worldBounds g' h')
  have safe: "safeRegion (getRegion (grid_clear g) (scratch_current (grid_clear g)) (h b))"
    if "b \<in> set bodies" for b
  proof -
    have "getRegion (grid_clear g) (scratch_current (grid_clear g)) (h b)
            = getRegion g (scratch_current g) (h b)"
      by (intro getRegion_cong) (simp_all add: grid_clear_def clearLoop_other)
    with refill(3) [OF that] show ?thesis
      by simp
  qed
  show ?case
    by (rule grid_update_placed [OF refill(4) grid_clear_placed(1) [OF refill(5)] safe])
       (simp_all add: refill(2) grid_clear_placed(2) [OF refill(5)])
next
  case (external g h h')
  from external(2) have "\<And>r. body_region (h' r) = body_region (h r)"
    by (simp add: externalStep_def)
  with external(3) show ?case
    by (simp add: placed_def)
qed

lemma placed_bucket:
  assumes "placed h g" and "(k, bkt) \<in> set (buckets g)"
  shows "bucketAt g k = bkt"
proof -
  from assms(1) have "distinct (map fst (buckets g))"
    by (simp add: placed_def wfGrid_def)
  with assms(2) have "map_of (buckets g) k = Some bkt"
    by simp
  then show ?thesis
    by (simp add: bucketAt_def)
qed

text \<open>
  C2, amended: in every state reached from a new grid by updates that are not forced, by
  clears, and by forced updates made on a grid that has just been cleared with a list
  that names no body twice, every bucket of the grid contains at most one reference to
  any given body. (The regions of the updated bodies are in the range where the cell
  identifiers are exact.)
\<close>

theorem bucket_refs_distinct:
  assumes "reachableRegular g h" and "(k, bkt) \<in> set (buckets g)"
  shows "distinct bkt"
proof -
  from reachableRegular_placed [OF assms(1)] have p: "placed h g" .
  then have "distinct (bucketAt g k)"
    by (simp add: placed_def)
  with placed_bucket [OF p assms(2)] show ?thesis
    by simp
qed

text \<open>
  Bodies 1 and 2 are registered in the cell (0, 0); the grid is cleared and the update
  forced on both: the grid is as before the clear.
\<close>

lemma example_refill_two:
  "grid_update (grid_clear gridTwo) heapTwo [1, 2] world800 True = Inr (gridTwo, heapTwo)"
  by (simp add: grid_defs example_defs state_defs fun_eq_iff)

lemma example_regular_two: "reachableRegular gridTwo heapTwo"
proof -
  have s0: "safeRegion (getRegion (grid_create 48 48) (scratch_current (grid_create 48 48))
               (heap0 b))" for b
    by (simp add: grid_defs example_defs safeRegion_def)
  have r: "reachableRegular gridTwo heapTwo"
    using reachableRegular.update [OF reachableRegular.init s0 example_update_two]
    by (simp add: example_defs state_defs)
  have s1: "safeRegion (getRegion gridTwo (scratch_current gridTwo) (heapTwo b))" for b
    by (simp add: grid_defs example_defs state_defs safeRegion_def)
  show ?thesis
    by (rule reachableRegular.refill [OF r _ s1 example_refill_two]) simp
qed

theorem bucket_refs_distinct_witness:
  "reachableRegular gridTwo heapTwo \<and> (0, [1, 2]) \<in> set (buckets gridTwo)
   \<and> distinct [1, 2 :: nat]"
proof -
  have m: "(0, [1, 2]) \<in> set (buckets gridTwo)"
    by (simp add: state_defs)
  from bucket_refs_distinct [OF example_regular_two m] example_regular_two m show ?thesis
    by simp
qed

text \<open>
  C2, as stated, fails: bodies 1 and 2 are in the bucket of the cell (0, 0) and the region
  stored in body 1 is the region of its bounds. A forced update of body 1 returns, and the
  bucket then holds body 1 twice.
\<close>

lemma example_forced_one:
  "grid_update gridTwo heapTwo [1] world800 True =
     Inr (gridTwo\<lparr>buckets := [(0, [1, 2, 1])], pairs := [((1, 2), 2, 1, 2)],
                  pairsList := [(2, 1, 2)]\<rparr>, heapTwo)"
  by (simp add: grid_defs example_defs state_defs fun_eq_iff)

theorem forced_update_duplicates:
  "reachable gridTwo heapTwo
   \<and> 1 \<in> set (bucketAt gridTwo 0)
   \<and> body_region (heapTwo 1) = Some (getRegion gridTwo (scratch_current gridTwo) (heapTwo 1))
   \<and> grid_update gridTwo heapTwo [1] world800 True =
       Inr (gridTwo\<lparr>buckets := [(0, [1, 2, 1])], pairs := [((1, 2), 2, 1, 2)],
                    pairsList := [(2, 1, 2)]\<rparr>, heapTwo)
   \<and> reachable (gridTwo\<lparr>buckets := [(0, [1, 2, 1])], pairs := [((1, 2), 2, 1, 2)],
                         pairsList := [(2, 1, 2)]\<rparr>) heapTwo
   \<and> (0, [1, 2, 1]) \<in> set (buckets (gridTwo\<lparr>buckets := [(0, [1, 2, 1])],
                         pairs := [((1, 2), 2, 1, 2)], pairsList := [(2, 1, 2)]\<rparr>))
   \<and> \<not> distinct [1, 2, 1 :: nat]"
proof -
  have "1 \<in> set (bucketAt gridTwo 0)"
    by (simp add: bucketAt_def state_defs)
  moreover have "body_region (heapTwo 1)
      = Some (getRegion gridTwo (scratch_current gridTwo) (heapTwo 1))"
    by (simp add: grid_defs example_defs state_defs)
  moreover note example_two_reachable example_forced_one
    reachable.update [OF example_two_reachable example_forced_one]
  ultimately show ?thesis
    by simp
qed

end
